theory Spec2Isabelle
  imports Main "HOL-Library.AList" "HOL-Library.Sublist"
begin

section \<open>The daemon of denon: data\<close>

text \<open>
  The class \<^verbatim>\<open>Daemon\<close> of \<^verbatim>\<open>src/daemon.ts\<close> runs a chain of commands, keeps the
  handle of the last one in \<^verbatim>\<open>#processes\<close>, watches its exit in a detached task and
  restarts the chain on file changes. JavaScript runs one continuation at a time, so
  every stretch of code between two \<^verbatim>\<open>await\<close>/\<^verbatim>\<open>yield\<close> points is one atomic transition
  of the model; what the outside world decides (a status promise settles, the watcher
  delivers a batch, a signal arrives, the consumer asks for the next event) is an
  event that selects the continuation to run.

  The collaborators behave as their contracts say: the runner builds a chain, a
  command's \<^verbatim>\<open>exe()\<close> returns a handle, the watcher delivers batches or ends. Two
  operations are modelled with their failure, because the daemon's code handles or
  propagates it: the promise of \<^verbatim>\<open>status()\<close> may be rejected, and a termination request
  may throw. The consumer asks for the next event only when its previous request has
  been answered, as \<^verbatim>\<open>for await\<close> does.
\<close>

text \<open>
  Modelled from the spec: \<^verbatim>\<open>ScriptOptions\<close> is declared in \<^verbatim>\<open>scripts.ts\<close>, which is not
  among the sources. Only \<^verbatim>\<open>watch\<close> is read by the daemon; it is optional, since
  \<^verbatim>\<open>start\<close> returns \<^verbatim>\<open>{}\<close> for an empty chain, and is tested for truthiness.
\<close>

record ScriptOptions =
  watch :: "bool option"

definition truthy :: "bool option \<Rightarrow> bool" where
  "truthy b = (b = Some True)"

text \<open>A \<^verbatim>\<open>Deno.Process\<close>: the daemon reads its \<^verbatim>\<open>pid\<close>, and calls \<^verbatim>\<open>status()\<close> and \<^verbatim>\<open>close()\<close>.\<close>

record process =
  rid :: nat
  pid :: nat

record ProcessStatus =
  success :: bool

text \<open>How the promise of \<^verbatim>\<open>process.status()\<close> settles.\<close>

datatype settled = Resolved ProcessStatus | Rejected

text \<open>
  A command of the chain built by the runner: \<^verbatim>\<open>exe\<close> is the handle that \<^verbatim>\<open>command.exe()\<close>
  returns (a chain is built anew for every execution, so each command is spawned once).
\<close>

record command =
  cmd :: "string list"
  options :: ScriptOptions
  exe :: process

text \<open>
  Modelled from the spec: the watcher's change records are declared outside the sources;
  a record carries a path and a classification, here the list of its action tags, and
  \<^verbatim>\<open>_.type.includes("modify")\<close> is membership in that list.
\<close>

record FileEvent =
  path :: string
  type :: "string list"

datatype DenonEvent = DStart | DReload "FileEvent list" | DExit

text \<open>The part of \<^verbatim>\<open>CompleteDenonConfig\<close> that \<^verbatim>\<open>reload\<close> reads.\<close>

record LogConfig =
  fullscreen :: bool

record WatcherConfig =
  match :: "string list option"
  exts :: "string list option"

record CompleteDenonConfig =
  logger :: "LogConfig option"
  watcher :: WatcherConfig

datatype signal = SIGHUP | SIGINT | SIGTERM | SIGTSTP | SIGKILL

subsection \<open>Effects\<close>

text \<open>
  Every call that leaves the daemon is written to a trace, in the order of the calls.
  A log message is one constructor per call site, carrying the interpolated values:
  \<^item> \<open>Clearing_screen\<close>: "clearing screen";
  \<^item> \<open>Watching_paths\<close>, \<open>Watching_exts\<close>: "watching path(s): ...", "watching extensions: ...";
  \<^item> \<open>Restarting\<close>: "restarting due to changes...";
  \<^item> \<open>S_starting\<close>: "S: starting process with pid ...";
  \<^item> \<open>Starting_main\<close>, \<open>Starting_sequential\<close>: "starting main `...`", "starting sequential `...`";
  \<^item> \<open>K_killing\<close>: "K: killing n process[es]";
  \<^item> \<open>K_closing_windows\<close>, \<open>K_killing_unix\<close>: "K: closing (windows) ...", "K: killing (unix) ...";
  \<^item> \<open>M_monitoring\<close>, \<open>M_got_status\<close>, \<open>M_error_status\<close>, \<open>M_exited_on_its_own\<close>,
    \<open>M_was_killed\<close>: the debug lines of \<^verbatim>\<open>monitor\<close>;
  \<^item> \<open>Clean_exit_waiting\<close>: "clean exit - waiting for changes before restart";
  \<^item> \<open>Clean_exit_exiting\<close>: "clean exit - denon is exiting ...";
  \<^item> \<open>App_crashed_waiting\<close>: "app crashed - waiting for file changes before starting ...";
  \<^item> \<open>App_crashed_exiting\<close>: "app crashed - denon is exiting ...";
  \<^item> \<open>R_reload_detected\<close>: "R: reload event detected, starting the reload procedure...".
\<close>

datatype level = Debug | Info | Warning | Error

datatype message =
    Clearing_screen
  | Watching_paths "string list"
  | Watching_exts "string list"
  | Restarting
  | S_starting nat
  | Starting_main "string list"
  | Starting_sequential "string list"
  | K_killing nat
  | K_closing_windows nat
  | K_killing_unix nat
  | M_monitoring nat
  | M_got_status nat
  | M_error_status nat
  | M_exited_on_its_own nat
  | Clean_exit_waiting
  | Clean_exit_exiting
  | App_crashed_waiting
  | App_crashed_exiting
  | M_was_killed nat
  | R_reload_detected

datatype effect =
    Log level message
  | ConsoleClear
  | Exe process
  | StatusCall process
  | ProcessClose process
  | DenoKill nat signal
  | DenoSignal signal
  | DenoExit nat
  | UnhandledRejection
  | WatcherNext
  | Yield DenonEvent
  | NextDone
  | NextRejected

text \<open>
  \<open>Exe p\<close> is \<^verbatim>\<open>command.exe()\<close> returning \<open>p\<close>, \<open>StatusCall p\<close> a call of \<^verbatim>\<open>p.status()\<close>,
  \<open>ProcessClose p\<close> is \<^verbatim>\<open>p.close()\<close>, \<open>DenoKill n s\<close> is \<^verbatim>\<open>Deno.kill(n, s)\<close>,
  \<open>DenoSignal s\<close> is \<^verbatim>\<open>Deno.signal(s)\<close>, \<open>WatcherNext\<close> a request for the next batch of the
  watcher. \<open>Yield e\<close> settles the consumer's pending \<^verbatim>\<open>next()\<close> with the event \<open>e\<close>,
  \<open>NextDone\<close> settles it with \<^verbatim>\<open>done: true\<close>, \<open>NextRejected\<close> rejects it with the error
  thrown inside the generator. \<open>UnhandledRejection\<close> is a detached task ending in an error.
\<close>

subsection \<open>The host and the daemon\<close>

text \<open>
  What the daemon is given: the runner (\<open>build\<close>, told how many chains it has built
  before, since a chain is rebuilt on every reload), the configuration, \<^verbatim>\<open>Deno.build.os\<close>,
  and whether a termination request on a handle throws. The last two fields are the
  platform's answer to \<^verbatim>\<open>Deno.kill\<close> and \<^verbatim>\<open>p.close()\<close>, which the daemon calls bare.
\<close>

record host =
  build :: "nat \<Rightarrow> string \<Rightarrow> command list"
  config :: CompleteDenonConfig
  os :: string
  kill_throws :: "process \<Rightarrow> bool"
  close_throws :: "process \<Rightarrow> bool"

text \<open>
  The state of one \<^verbatim>\<open>Daemon\<close>: its fields \<^verbatim>\<open>#script\<close> and \<^verbatim>\<open>#processes\<close> (an object keyed
  by pid, here an association list read with \<open>map_of\<close>), and what its detached tasks
  leave behind: the \<^verbatim>\<open>monitor\<close> calls suspended at \<^verbatim>\<open>await process.status()\<close>, the signals
  a task of \<^verbatim>\<open>onExit\<close> is waiting for, the number of chains built, whether \<^verbatim>\<open>Deno.exit\<close>
  has been called, and the trace.
\<close>

record daemon =
  script :: string
  processes :: "(nat \<times> process) list"
  monitors :: "(process \<times> ScriptOptions) list"
  listeners :: "signal list"
  builds :: nat
  exited :: bool
  trace :: "effect list"

definition Daemon :: "string \<Rightarrow> daemon" where
  "Daemon s = \<lparr>script = s, processes = [], monitors = [], listeners = [], builds = 0,
     exited = False, trace = []\<rparr>"

definition emit :: "effect \<Rightarrow> daemon \<Rightarrow> daemon" where
  "emit e d = d\<lparr>trace := trace d @ [e]\<rparr>"

definition log_debug :: "message \<Rightarrow> daemon \<Rightarrow> daemon" where
  "log_debug m = emit (Log Debug m)"

definition log_info :: "message \<Rightarrow> daemon \<Rightarrow> daemon" where
  "log_info m = emit (Log Info m)"

definition log_warning :: "message \<Rightarrow> daemon \<Rightarrow> daemon" where
  "log_warning m = emit (Log Warning m)"

definition log_error :: "message \<Rightarrow> daemon \<Rightarrow> daemon" where
  "log_error m = emit (Log Error m)"

text \<open>
  The own keys of the registry object, as \<^verbatim>\<open>Object.keys\<close> and \<^verbatim>\<open>for ... in\<close> enumerate
  them: each key once, integer keys in ascending order.
\<close>

definition Object_keys :: "(nat \<times> process) list \<Rightarrow> nat list" where
  "Object_keys r = sort (remdups (map fst r))"

section \<open>killAll\<close>

datatype completion = Normal | Thrown

text \<open>
  The loop of \<^verbatim>\<open>killAll\<close> over the keys of the copy. A request that throws ends the loop
  and the call: nothing in \<^verbatim>\<open>killAll\<close> catches it.
\<close>

fun kill_each :: "host \<Rightarrow> (nat \<times> process) list \<Rightarrow> nat list \<Rightarrow> daemon \<Rightarrow> completion \<times> daemon" where
  "kill_each h pcopy [] d = (Normal, d)"
| "kill_each h pcopy (k # ks) d =
     (case map_of pcopy k of
        None \<Rightarrow> (Thrown, d)
      | Some p \<Rightarrow>
          if os h = ''windows'' then
            (let d1 = emit (ProcessClose p) (log_debug (K_closing_windows (pid p)) d)
             in if close_throws h p then (Thrown, d1) else kill_each h pcopy ks d1)
          else
            (let d1 = emit (DenoKill (pid p) SIGKILL) (log_debug (K_killing_unix (pid p)) d)
             in if kill_throws h p then (Thrown, d1) else kill_each h pcopy ks d1))"

definition killAll :: "host \<Rightarrow> daemon \<Rightarrow> completion \<times> daemon" where
  "killAll h d =
     (let d1 = log_debug (K_killing (length (Object_keys (processes d)))) d;
          pcopy = processes d1;
          d2 = d1\<lparr>processes := []\<rparr>
      in kill_each h pcopy (Object_keys pcopy) d2)"

section \<open>monitor\<close>

text \<open>
  \<^verbatim>\<open>monitor\<close> runs up to \<^verbatim>\<open>await process.status()\<close> when it is called, and the rest when
  the promise settles. The first part logs, asks for the status and leaves the
  suspended call among the monitors.
\<close>

definition monitor :: "process \<Rightarrow> ScriptOptions \<Rightarrow> daemon \<Rightarrow> daemon" where
  "monitor process opts d =
     (let d1 = emit (StatusCall process) (log_debug (M_monitoring (pid process)) d)
      in d1\<lparr>monitors := monitors d1 @ [(process, opts)]\<rparr>)"

text \<open>
  The second part: \<open>s\<close> is the status, or undefined (\<open>None\<close>) when the promise was
  rejected and the \<^verbatim>\<open>catch\<close> ran; then the registry is looked up.
\<close>

definition monitor_resume :: "process \<Rightarrow> ScriptOptions \<Rightarrow> settled \<Rightarrow> daemon \<Rightarrow> daemon" where
  "monitor_resume process opts out d =
     (let s = (case out of Resolved st \<Rightarrow> Some st | Rejected \<Rightarrow> None);
          d1 = (case out of
                  Resolved st \<Rightarrow> log_debug (M_got_status (pid process)) d
                | Rejected \<Rightarrow> log_debug (M_error_status (pid process)) d)
      in case map_of (processes d1) (pid process) of
           Some p \<Rightarrow>
             (let d2 = log_debug (M_exited_on_its_own (pid process)) d1;
                  d3 = d2\<lparr>processes := AList.delete (pid process) (processes d2)\<rparr>
              in case s of
                   Some st \<Rightarrow>
                     if success st then
                       (if truthy (watch opts) then log_info Clean_exit_waiting d3
                        else log_info Clean_exit_exiting d3)
                     else
                       (if truthy (watch opts) then log_error App_crashed_waiting d3
                        else log_error App_crashed_exiting d3)
                 | None \<Rightarrow> d3)
         | None \<Rightarrow> log_debug (M_was_killed (pid process)) d1)"

section \<open>The generator and the chain\<close>

text \<open>
  Where the generator made by \<^verbatim>\<open>iterate\<close> is suspended. \<open>AwaitStatus c commands i\<close> is
  inside \<^verbatim>\<open>start\<close>, at \<^verbatim>\<open>await process.status()\<close> of the command \<open>i\<close> of \<open>commands\<close>, with
  \<open>c\<close> telling which \<^verbatim>\<open>await this.start()\<close> is waiting for it: the one of \<^verbatim>\<open>iterate\<close> or
  the one of \<^verbatim>\<open>reload\<close>. A generator that has returned or thrown is \<open>Completed\<close>.
\<close>

datatype caller = FromIterate | FromReload

datatype gen =
    SuspendedStart
  | YieldedStart
  | AwaitStatus caller "command list" nat
  | AwaitWatcher
  | YieldedReload
  | YieldedExit
  | Completed

definition signs :: "signal list" where
  "signs = [SIGHUP, SIGINT, SIGTERM, SIGTSTP]"

fun listen :: "signal list \<Rightarrow> daemon \<Rightarrow> daemon" where
  "listen [] d = d"
| "listen (s # ss) d = listen ss ((emit (DenoSignal s) d)\<lparr>listeners := listeners d @ [s]\<rparr>)"

definition onExit :: "host \<Rightarrow> daemon \<Rightarrow> daemon" where
  "onExit h d = (if os h \<noteq> ''windows'' then listen signs d else d)"

text \<open>
  What follows \<^verbatim>\<open>await this.start()\<close>. In \<^verbatim>\<open>iterate\<close>: \<^verbatim>\<open>onExit\<close>, then the test of
  \<^verbatim>\<open>options.watch\<close>, which either asks the watcher for its first batch or yields \<^verbatim>\<open>exit\<close>.
  In \<^verbatim>\<open>reload\<close> the options are dropped, \<^verbatim>\<open>reload\<close> returns and the \<^verbatim>\<open>for await\<close> of
  \<^verbatim>\<open>iterate\<close> asks for the next batch. A continuation whose promise is already settled
  is run in the same transition as the code that settled it.
\<close>

fun after_start :: "host \<Rightarrow> caller \<Rightarrow> ScriptOptions \<Rightarrow> daemon \<Rightarrow> gen \<times> daemon" where
  "after_start h FromIterate opts d =
     (let d1 = onExit h d
      in if truthy (watch opts) then (AwaitWatcher, emit WatcherNext d1)
         else (YieldedExit, emit (Yield DExit) d1))"
| "after_start h FromReload opts d = (AwaitWatcher, emit WatcherNext d)"

text \<open>
  One turn of the loop of \<^verbatim>\<open>start\<close>, from index \<open>i\<close> up to the next suspension: the last
  command is registered, monitored and its options returned; any other is awaited.
\<close>

definition start_loop :: "host \<Rightarrow> caller \<Rightarrow> command list \<Rightarrow> nat \<Rightarrow> daemon \<Rightarrow> gen \<times> daemon" where
  "start_loop h c commands i d =
     (if i < length commands then
        (let command = commands ! i;
             process = exe command;
             d1 = log_debug (S_starting (pid process)) (emit (Exe process) d)
         in if i = length commands - 1 then
              (let d2 = log_warning (Starting_main (cmd command)) d1;
                   d3 = d2\<lparr>processes := AList.update (pid process) process (processes d2)\<rparr>;
                   d4 = monitor process (options command) d3
               in after_start h c (options command) d4)
            else
              (AwaitStatus c commands i,
               emit (StatusCall process) (log_info (Starting_sequential (cmd command)) d1)))
      else after_start h c \<lparr>watch = None\<rparr> d)"

definition start :: "host \<Rightarrow> caller \<Rightarrow> daemon \<Rightarrow> gen \<times> daemon" where
  "start h c d =
     (let commands = build h (builds d) (script d)
      in start_loop h c commands 0 (d\<lparr>builds := Suc (builds d)\<rparr>))"

definition reload :: "host \<Rightarrow> daemon \<Rightarrow> gen \<times> daemon" where
  "reload h d =
     (let d1 = (case logger (config h) of
                  Some l \<Rightarrow> if fullscreen l then emit ConsoleClear (log_debug Clearing_screen d) else d
                | None \<Rightarrow> d);
          d2 = (case match (watcher (config h)) of
                  Some m \<Rightarrow> log_info (Watching_paths m) d1
                | None \<Rightarrow> d1);
          d3 = (case exts (watcher (config h)) of
                  Some x \<Rightarrow> log_info (Watching_exts x) d2
                | None \<Rightarrow> d2);
          d4 = log_info Restarting d3
      in case killAll h d4 of
           (Thrown, d5) \<Rightarrow> (Completed, emit NextRejected d5)
         | (Normal, d5) \<Rightarrow> start h FromReload d5)"

text \<open>
  \<^verbatim>\<open>iterate()\<close> makes a generator that has not run yet, and \<^verbatim>\<open>[Symbol.asyncIterator]()\<close>
  returns what \<^verbatim>\<open>iterate()\<close> returns.
\<close>

definition iterate :: "daemon \<Rightarrow> gen" where
  "iterate d = SuspendedStart"

definition Symbol_asyncIterator :: "daemon \<Rightarrow> gen" where
  "Symbol_asyncIterator d = iterate d"

section \<open>Transitions\<close>

datatype event =
    Next
  | Settle process settled
  | Feed "FileEvent list option"
  | Signal signal

text \<open>
  \<open>Next\<close>: the consumer calls \<^verbatim>\<open>next()\<close>; it does so when no request of its own is pending
  (as \<^verbatim>\<open>for await\<close> does), so the generator is at a \<^verbatim>\<open>yield\<close>, not yet started, or completed.
\<close>

definition on_next :: "host \<Rightarrow> gen \<Rightarrow> daemon \<Rightarrow> (gen \<times> daemon) option" where
  "on_next h g d =
     (case g of
        SuspendedStart \<Rightarrow> Some (YieldedStart, emit (Yield DStart) d)
      | YieldedStart \<Rightarrow> Some (start h FromIterate d)
      | YieldedReload \<Rightarrow> Some (reload h d)
      | YieldedExit \<Rightarrow> Some (Completed, emit NextDone d)
      | Completed \<Rightarrow> Some (Completed, emit NextDone d)
      | AwaitStatus c commands i \<Rightarrow> None
      | AwaitWatcher \<Rightarrow> None)"

text \<open>
  \<open>Settle p out\<close>: the promise of \<^verbatim>\<open>p.status()\<close> settles. If \<^verbatim>\<open>start\<close> is waiting for it, a
  rejection is thrown out of \<^verbatim>\<open>start\<close> and of the generator, and a status lets the
  loop go on with the next command, whatever the status says. Otherwise the monitor
  of \<open>p\<close> resumes.
\<close>

definition on_settle :: "host \<Rightarrow> process \<Rightarrow> settled \<Rightarrow> gen \<Rightarrow> daemon \<Rightarrow> (gen \<times> daemon) option" where
  "on_settle h p out g d =
     (case (case g of
              AwaitStatus c commands i \<Rightarrow>
                if exe (commands ! i) = p then Some (c, commands, i) else None
            | _ \<Rightarrow> None) of
        Some (c, commands, i) \<Rightarrow>
          (case out of
             Rejected \<Rightarrow> Some (Completed, emit NextRejected d)
           | Resolved st \<Rightarrow> Some (start_loop h c commands (Suc i) d))
      | None \<Rightarrow>
          (case find (\<lambda>m. fst m = p) (monitors d) of
             None \<Rightarrow> None
           | Some m \<Rightarrow>
               Some (g, monitor_resume p (snd m) out (d\<lparr>monitors := remove1 m (monitors d)\<rparr>))))"

text \<open>
  \<open>Feed b\<close>: the watcher answers the pending request, with a batch or with the end of
  the feed. A batch with a record whose type includes "modify" is yielded as a
  \<^verbatim>\<open>reload\<close> event; \<^verbatim>\<open>reload()\<close> is called when the consumer asks for the next event.
\<close>

definition on_feed :: "FileEvent list option \<Rightarrow> gen \<Rightarrow> daemon \<Rightarrow> (gen \<times> daemon) option" where
  "on_feed b g d =
     (case g of
        AwaitWatcher \<Rightarrow>
          (case b of
             None \<Rightarrow> Some (YieldedExit, emit (Yield DExit) d)
           | Some watchE \<Rightarrow>
               if list_ex (\<lambda>e. ''modify'' \<in> set (type e)) watchE then
                 Some (YieldedReload, emit (Yield (DReload watchE)) (log_debug R_reload_detected d))
               else Some (AwaitWatcher, emit WatcherNext d))
      | _ \<Rightarrow> None)"

text \<open>
  \<open>Signal s\<close>: a signal a task of \<^verbatim>\<open>onExit\<close> is waiting for. The task calls \<^verbatim>\<open>killAll\<close> and
  then \<^verbatim>\<open>Deno.exit(0)\<close>, after which nothing runs.
\<close>

definition on_signal :: "host \<Rightarrow> signal \<Rightarrow> gen \<Rightarrow> daemon \<Rightarrow> (gen \<times> daemon) option" where
  "on_signal h s g d =
     (if s \<in> set (listeners d) then
        (case killAll h (d\<lparr>listeners := remove1 s (listeners d)\<rparr>) of
           (Normal, d1) \<Rightarrow> Some (g, (emit (DenoExit 0) d1)\<lparr>exited := True\<rparr>)
         | (Thrown, d1) \<Rightarrow> Some (g, emit UnhandledRejection d1))
      else None)"

text \<open>An event that nothing is waiting for cannot happen: the transition is \<open>None\<close>.\<close>

fun step :: "host \<Rightarrow> event \<Rightarrow> gen \<times> daemon \<Rightarrow> (gen \<times> daemon) option" where
  "step h e (g, d) =
     (if exited d then None
      else case e of
             Next \<Rightarrow> on_next h g d
           | Settle p out \<Rightarrow> on_settle h p out g d
           | Feed b \<Rightarrow> on_feed b g d
           | Signal s \<Rightarrow> on_signal h s g d)"

fun run :: "host \<Rightarrow> event list \<Rightarrow> gen \<times> daemon \<Rightarrow> (gen \<times> daemon) option" where
  "run h [] c = Some c"
| "run h (e # es) c = (case step h e c of None \<Rightarrow> None | Some c' \<Rightarrow> run h es c')"

text \<open>The events a trace has yielded to the consumer.\<close>

fun yields :: "effect list \<Rightarrow> DenonEvent list" where
  "yields [] = []"
| "yields (Yield e # t) = e # yields t"
| "yields (x # t) = yields t"

section \<open>Observations\<close>

text \<open>
  What the statements below read off a trace: the termination requests, the request
  \<^verbatim>\<open>killAll\<close> makes for a handle on the host's platform and whether it throws, the
  handles spawned, and the traces that neither yield an event nor ask the watcher.
\<close>

fun is_request :: "effect \<Rightarrow> bool" where
  "is_request (ProcessClose p) = True"
| "is_request (DenoKill n s) = True"
| "is_request e = False"

definition request :: "host \<Rightarrow> process \<Rightarrow> effect" where
  "request h p = (if os h = ''windows'' then ProcessClose p else DenoKill (pid p) SIGKILL)"

definition request_throws :: "host \<Rightarrow> process \<Rightarrow> bool" where
  "request_throws h p = (if os h = ''windows'' then close_throws h p else kill_throws h p)"

fun spawned :: "effect list \<Rightarrow> process list" where
  "spawned [] = []"
| "spawned (Exe p # t) = p # spawned t"
| "spawned (x # t) = spawned t"

definition quiet :: "effect list \<Rightarrow> bool" where
  "quiet t = (yields t = [] \<and> WatcherNext \<notin> set t)"

text \<open>
  The registry holds at most one entry, and none while the generator has not yet
  started a chain or is inside \<^verbatim>\<open>start\<close>.
\<close>

definition at_most_one :: "gen \<times> daemon \<Rightarrow> bool" where
  "at_most_one c =
     (length (processes (snd c)) \<le> 1 \<and>
      (case fst c of
         SuspendedStart \<Rightarrow> processes (snd c) = []
       | YieldedStart \<Rightarrow> processes (snd c) = []
       | AwaitStatus k commands i \<Rightarrow> processes (snd c) = []
       | _ \<Rightarrow> True))"

text \<open>
  The four exit messages of \<^verbatim>\<open>monitor\<close>, by success flag and whether the options ask to
  watch; the two debug lines by which \<^verbatim>\<open>monitor\<close> says how the process ended; and
  whether \<^verbatim>\<open>start\<close> is waiting for the status of a handle.
\<close>

definition exit_message :: "bool \<Rightarrow> bool \<Rightarrow> effect" where
  "exit_message ok w =
     (if ok then (if w then Log Info Clean_exit_waiting else Log Info Clean_exit_exiting)
      else (if w then Log Error App_crashed_waiting else Log Error App_crashed_exiting))"

definition verdicts :: "nat \<Rightarrow> effect list \<Rightarrow> effect list" where
  "verdicts n t =
     filter (\<lambda>e. e = Log Debug (M_exited_on_its_own n) \<or> e = Log Debug (M_was_killed n)) t"

fun awaiting :: "gen \<Rightarrow> process \<Rightarrow> bool" where
  "awaiting (AwaitStatus c commands i) p = (exe (commands ! i) = p)"
| "awaiting g p = False"

text \<open>
  The statuses delivered, in order, for the sequential commands of a chain: zipping
  stops at the shorter list, so \<open>settles commands sts\<close> with one status less than
  commands leaves the last command unsettled.
\<close>

definition settles :: "command list \<Rightarrow> ProcessStatus list \<Rightarrow> event list" where
  "settles commands sts = map2 (\<lambda>c st. Settle (exe c) (Resolved st)) commands sts"

subsection \<open>Concrete hosts\<close>

text \<open>
  A host whose runner returns the chains of a list in turn (and the empty chain
  afterwards), with no logger and no watcher patterns configured, and on which a
  termination request throws for the handles listed as dead.
\<close>

definition example_host :: "command list list \<Rightarrow> string \<Rightarrow> process list \<Rightarrow> host" where
  "example_host cs osname dead =
     \<lparr>build = (\<lambda>n s. if n < length cs then cs ! n else []),
      config = \<lparr>logger = None, watcher = \<lparr>match = None, exts = None\<rparr>\<rparr>,
      os = osname,
      kill_throws = (\<lambda>p. p \<in> set dead),
      close_throws = (\<lambda>p. p \<in> set dead)\<rparr>"

text \<open>
  Handles, commands and a batch for the concrete runs: a setup command, a main command
  that asks to watch, one that does not, a batch with one modified file, and a daemon
  that tracks the handle with pid 7 and has its monitor pending.
\<close>

definition main_7 :: process where
  "main_7 = \<lparr>rid = 3, pid = 7\<rparr>"

definition main_8 :: process where
  "main_8 = \<lparr>rid = 4, pid = 8\<rparr>"

definition setup_6 :: process where
  "setup_6 = \<lparr>rid = 2, pid = 6\<rparr>"

definition ex_setup :: command where
  "ex_setup = \<lparr>cmd = [''echo'', ''setup''], options = \<lparr>watch = None\<rparr>, exe = setup_6\<rparr>"

definition ex_main :: command where
  "ex_main = \<lparr>cmd = [''deno'', ''run'', ''app.ts''], options = \<lparr>watch = Some True\<rparr>, exe = main_7\<rparr>"

definition ex_once :: command where
  "ex_once = \<lparr>cmd = [''deno'', ''run'', ''job.ts''], options = \<lparr>watch = Some False\<rparr>, exe = main_8\<rparr>"

definition ex_batch :: "FileEvent list" where
  "ex_batch = [\<lparr>path = ''app.ts'', type = [''modify'']\<rparr>]"

definition tracked_7 :: daemon where
  "tracked_7 = (Daemon ''app'')\<lparr>processes := [(7, main_7)],
     monitors := [(main_7, \<lparr>watch = Some True\<rparr>)]\<rparr>"

text \<open>
  The daemon after a first iteration has run to its end: the chain is one command that
  does not ask to watch, and the consumer has received \<^verbatim>\<open>start\<close>, \<^verbatim>\<open>exit\<close> and
  \<^verbatim>\<open>done\<close>.
\<close>

definition ex_rerun :: daemon where
  "ex_rerun = snd (the (run (example_host [[ex_once], [ex_main]] ''linux'' []) [Next, Next, Next]
     (Symbol_asyncIterator (Daemon ''app''), Daemon ''app'')))"

text \<open>
  The daemon tracking pid 7 after one chain has been built, as it is when a reload
  event has just been yielded.
\<close>

definition reloading_7 :: daemon where
  "reloading_7 = tracked_7\<lparr>builds := 1\<rparr>"

text \<open>
  What holds of every state of an iteration whose first chain does not ask to watch:
  the watcher has never been asked, and the events yielded so far are those that the
  place of the generator allows, which is never inside the watch loop.
\<close>

definition exit_only :: "host \<Rightarrow> string \<Rightarrow> gen \<times> daemon \<Rightarrow> bool" where
  "exit_only h s c =
     (WatcherNext \<notin> set (trace (snd c)) \<and> script (snd c) = s \<and>
      (case fst c of
         SuspendedStart \<Rightarrow> yields (trace (snd c)) = [] \<and> builds (snd c) = 0
       | YieldedStart \<Rightarrow> yields (trace (snd c)) = [DStart] \<and> builds (snd c) = 0
       | AwaitStatus k commands i \<Rightarrow>
           yields (trace (snd c)) = [DStart] \<and> k = FromIterate \<and> commands = build h 0 s
       | AwaitWatcher \<Rightarrow> False
       | YieldedReload \<Rightarrow> False
       | YieldedExit \<Rightarrow> yields (trace (snd c)) = [DStart, DExit]
       | Completed \<Rightarrow>
           yields (trace (snd c)) = [DStart] \<or> yields (trace (snd c)) = [DStart, DExit]))"

section \<open>Basic facts\<close>

lemmas log_defs = log_debug_def log_info_def log_warning_def log_error_def

lemma yields_append: "yields (a @ b) = yields a @ yields b"
  by (induction a rule: yields.induct) simp_all

lemma spawned_append: "spawned (a @ b) = spawned a @ spawned b"
  by (induction a rule: spawned.induct) simp_all

lemma quiet_Nil: "quiet []"
  by (simp add: quiet_def)

lemma quiet_append: "quiet (a @ b) = (quiet a \<and> quiet b)"
  by (auto simp: quiet_def yields_append)

lemma monitor_resume_fields:
  "exited (monitor_resume p opts out d) = exited d"
  "monitors (monitor_resume p opts out d) = monitors d"
  "listeners (monitor_resume p opts out d) = listeners d"
  "builds (monitor_resume p opts out d) = builds d"
  "script (monitor_resume p opts out d) = script d"
  by (simp_all add: monitor_resume_def Let_def emit_def log_defs split: settled.split option.split)

lemma length_delete: "length (AList.delete k r) \<le> length r"
  by (simp add: AList.delete_eq)

lemma monitor_resume_length: "length (processes (monitor_resume p opts out d)) \<le> length (processes d)"
  by (simp add: monitor_resume_def Let_def emit_def log_defs length_delete split: settled.split option.split)

lemma monitor_resume_trace: "\<exists>t. trace (monitor_resume p opts out d) = trace d @ t \<and> quiet t \<and> spawned t = []"
  by (simp add: monitor_resume_def Let_def emit_def log_defs quiet_def split: settled.split option.split)

lemma kill_each_fields:
  "processes (snd (kill_each h pc ks d)) = processes d"
  "exited (snd (kill_each h pc ks d)) = exited d"
  "monitors (snd (kill_each h pc ks d)) = monitors d"
  "listeners (snd (kill_each h pc ks d)) = listeners d"
  "builds (snd (kill_each h pc ks d)) = builds d"
  "script (snd (kill_each h pc ks d)) = script d"
  by (induction ks arbitrary: d; simp add: emit_def log_defs Let_def split: option.split)+

lemma kill_each_trace: "\<exists>t. trace (snd (kill_each h pc ks d)) = trace d @ t \<and> quiet t \<and> spawned t = []"
proof (induction ks arbitrary: d)
  case Nil
  show ?case by (simp add: quiet_def)
next
  case (Cons k ks)
  show ?case
  proof (cases "map_of pc k")
    case None
    then show ?thesis by (simp add: quiet_def)
  next
    case (Some p)
    let ?d1 = "if os h = ''windows''
       then emit (ProcessClose p) (log_debug (K_closing_windows (pid p)) d)
       else emit (DenoKill (pid p) SIGKILL) (log_debug (K_killing_unix (pid p)) d)"
    have "\<exists>t1. trace ?d1 = trace d @ t1 \<and> quiet t1 \<and> spawned t1 = []"
      by (simp add: emit_def log_defs quiet_def)
    then obtain t1 where t1: "trace ?d1 = trace d @ t1" "quiet t1" "spawned t1 = []"
      by blast
    from Cons[of ?d1] obtain t where t: "trace (snd (kill_each h pc ks ?d1)) = trace ?d1 @ t" "quiet t" "spawned t = []"
      by blast
    have "snd (kill_each h pc (k # ks) d) = ?d1 \<or> snd (kill_each h pc (k # ks) d) = snd (kill_each h pc ks ?d1)"
      using Some by (simp add: Let_def)
    then show ?thesis
    proof
      assume "snd (kill_each h pc (k # ks) d) = ?d1"
      then show ?thesis using t1 by (intro exI[of _ t1]) simp
    next
      assume "snd (kill_each h pc (k # ks) d) = snd (kill_each h pc ks ?d1)"
      then show ?thesis using t1 t
        by (intro exI[of _ "t1 @ t"]) (simp add: quiet_append spawned_append)
    qed
  qed
qed

lemma killAll_fields:
  "processes (snd (killAll h d)) = []"
  "exited (snd (killAll h d)) = exited d"
  "monitors (snd (killAll h d)) = monitors d"
  "listeners (snd (killAll h d)) = listeners d"
  "builds (snd (killAll h d)) = builds d"
  "script (snd (killAll h d)) = script d"
  by (simp_all add: killAll_def Let_def kill_each_fields emit_def log_defs)

lemma killAll_trace: "\<exists>t. trace (snd (killAll h d)) = trace d @ t \<and> quiet t \<and> spawned t = []"
proof -
  let ?d2 = "(log_debug (K_killing (length (Object_keys (processes d)))) d)\<lparr>processes := []\<rparr>"
  have eq: "killAll h d = kill_each h (processes d) (Object_keys (processes d)) ?d2"
    by (simp add: killAll_def Let_def emit_def log_defs)
  obtain t where "trace (snd (kill_each h (processes d) (Object_keys (processes d)) ?d2)) = trace ?d2 @ t" "quiet t" "spawned t = []"
    using kill_each_trace by blast
  then show ?thesis unfolding eq
    by (intro exI[of _ "Log Debug (K_killing (length (Object_keys (processes d)))) # t"])
       (simp add: emit_def log_defs quiet_def)
qed

lemma set_Object_keys: "set (Object_keys r) = fst ` set r"
  by (simp add: Object_keys_def)

lemma distinct_Object_keys: "distinct (Object_keys r)"
  by (simp add: Object_keys_def)

lemma killAll_unfold:
  "killAll h d = kill_each h (processes d) (Object_keys (processes d))
     ((log_debug (K_killing (length (Object_keys (processes d)))) d)\<lparr>processes := []\<rparr>)"
  by (simp add: killAll_def Let_def emit_def log_defs)

lemma kill_each_requests:
  "set ks \<subseteq> fst ` set pc \<Longrightarrow>
   \<exists>ks' t. prefix ks' ks \<and> trace (snd (kill_each h pc ks d)) = trace d @ t \<and>
     filter is_request t = map (\<lambda>k. request h (the (map_of pc k))) ks' \<and>
     (fst (kill_each h pc ks d) = Thrown \<or> ks' = ks)"
proof (induction ks arbitrary: d)
  case Nil
  then show ?case by simp
next
  case (Cons k ks)
  then obtain p where p: "map_of pc k = Some p"
    by (metis list.set_intros(1) subsetD weak_map_of_SomeI map_of_eq_None_iff not_Some_eq)
  let ?d1 = "if os h = ''windows''
     then emit (ProcessClose p) (log_debug (K_closing_windows (pid p)) d)
     else emit (DenoKill (pid p) SIGKILL) (log_debug (K_killing_unix (pid p)) d)"
  let ?thr = "if os h = ''windows'' then close_throws h p else kill_throws h p"
  have "\<exists>l. trace ?d1 = trace d @ [l, request h p] \<and> \<not> is_request l"
    by (simp add: emit_def log_defs request_def)
  then obtain l where l: "trace ?d1 = trace d @ [l, request h p]" "\<not> is_request l" by blast
  have rq: "is_request (request h p)" by (simp add: request_def)
  show ?case
  proof (cases ?thr)
    case True
    then have "kill_each h pc (k # ks) d = (Thrown, ?d1)"
      using p by (auto simp: Let_def split: if_splits)
    then show ?thesis
      using l rq p by (intro exI[of _ "[k]"] exI[of _ "[l, request h p]"]) simp
  next
    case False
    then have eq: "kill_each h pc (k # ks) d = kill_each h pc ks ?d1"
      using p by (auto simp: Let_def split: if_splits)
    from Cons.prems have "set ks \<subseteq> fst ` set pc" by simp
    from Cons.IH[OF this, of ?d1] obtain ks' t where
      IH: "prefix ks' ks" "trace (snd (kill_each h pc ks ?d1)) = trace ?d1 @ t"
        "filter is_request t = map (\<lambda>k. request h (the (map_of pc k))) ks'"
        "fst (kill_each h pc ks ?d1) = Thrown \<or> ks' = ks" by blast
    show ?thesis
      using IH l rq p unfolding eq
      by (intro exI[of _ "k # ks'"] exI[of _ "[l, request h p] @ t"]) auto
  qed
qed

lemma killAll_requests:
  "\<exists>ks t. prefix ks (Object_keys (processes d)) \<and>
      trace (snd (killAll h d)) =
        trace d @ Log Debug (K_killing (length (Object_keys (processes d)))) # t \<and>
      filter is_request t = map (\<lambda>k. request h (the (map_of (processes d) k))) ks \<and>
      (fst (killAll h d) = Thrown \<or> ks = Object_keys (processes d))"
proof -
  let ?pc = "processes d"
  let ?d2 = "(log_debug (K_killing (length (Object_keys ?pc))) d)\<lparr>processes := []\<rparr>"
  have "set (Object_keys ?pc) \<subseteq> fst ` set ?pc" by (simp add: set_Object_keys)
  from kill_each_requests[OF this, of h ?d2] show ?thesis
    unfolding killAll_unfold by (auto simp: emit_def log_defs)
qed

lemma killAll_twice:
  "filter is_request (drop (length (trace (snd (killAll h d))))
      (trace (snd (killAll h (snd (killAll h d)))))) = []"
proof -
  let ?d1 = "snd (killAll h d)"
  have "processes ?d1 = []" by (simp add: killAll_fields)
  then have "trace (snd (killAll h ?d1)) = trace ?d1 @ [Log Debug (K_killing 0)]"
    by (simp add: killAll_def Let_def Object_keys_def emit_def log_defs)
  then show ?thesis by simp
qed

lemma registered_iff: "(map_of r k = None) = (k \<notin> fst ` set r)"
  by (simp add: map_of_eq_None_iff)

lemma monitor_resume_Resolved:
  "monitor_resume p opts (Resolved st) d =
     (if pid p \<in> fst ` set (processes d) then
        d\<lparr>processes := AList.delete (pid p) (processes d),
          trace := trace d @ [Log Debug (M_got_status (pid p)),
            Log Debug (M_exited_on_its_own (pid p)),
            exit_message (success st) (truthy (watch opts))]\<rparr>
      else d\<lparr>trace := trace d @ [Log Debug (M_got_status (pid p)),
            Log Debug (M_was_killed (pid p))]\<rparr>)"
proof (cases "map_of (processes d) (pid p)")
  case None
  then have "pid p \<notin> fst ` set (processes d)" by (simp add: registered_iff)
  with None show ?thesis
    by (simp add: monitor_resume_def Let_def emit_def log_defs)
next
  case (Some q)
  then have "pid p \<in> fst ` set (processes d)" using registered_iff[of "processes d" "pid p"] by auto
  with Some show ?thesis
    by (simp add: monitor_resume_def Let_def emit_def log_defs exit_message_def)
qed

lemma monitor_resume_Rejected:
  "monitor_resume p opts Rejected d =
     (if pid p \<in> fst ` set (processes d) then
        d\<lparr>processes := AList.delete (pid p) (processes d),
          trace := trace d @ [Log Debug (M_error_status (pid p)),
            Log Debug (M_exited_on_its_own (pid p))]\<rparr>
      else d\<lparr>trace := trace d @ [Log Debug (M_error_status (pid p)),
            Log Debug (M_was_killed (pid p))]\<rparr>)"
proof (cases "map_of (processes d) (pid p)")
  case None
  then have "pid p \<notin> fst ` set (processes d)" by (simp add: registered_iff)
  with None show ?thesis
    by (simp add: monitor_resume_def Let_def emit_def log_defs)
next
  case (Some q)
  then have "pid p \<in> fst ` set (processes d)" using registered_iff[of "processes d" "pid p"] by auto
  with Some show ?thesis
    by (simp add: monitor_resume_def Let_def emit_def log_defs)
qed

lemma map_of_delete_same: "map_of (AList.delete k r) k = None"
  by (simp add: AList.delete_conv)

lemma monitor_resume_unregisters:
  "map_of (processes (monitor_resume p opts out d)) (pid p) = None"
proof (cases "pid p \<in> fst ` set (processes d)")
  case True
  then show ?thesis
    by (cases out) (simp_all add: monitor_resume_Resolved monitor_resume_Rejected map_of_delete_same)
next
  case False
  then have "map_of (processes d) (pid p) = None" by (simp add: registered_iff)
  with False show ?thesis
    by (cases out) (simp_all add: monitor_resume_Resolved monitor_resume_Rejected)
qed

lemma exit_message_inj: "(exit_message a b = exit_message a' b') = (a = a' \<and> b = b')"
  by (auto simp: exit_message_def)

lemma step_monitor:
  "\<not> exited d \<Longrightarrow> \<not> awaiting g p \<Longrightarrow> find (\<lambda>m. fst m = p) (monitors d) = Some m \<Longrightarrow>
   step h (Settle p out) (g, d) =
     Some (g, monitor_resume p (snd m) out (d\<lparr>monitors := remove1 m (monitors d)\<rparr>))"
  by (cases g) (simp_all add: on_settle_def)

lemma listen_fields:
  "processes (listen ss d) = processes d"
  "exited (listen ss d) = exited d"
  "monitors (listen ss d) = monitors d"
  "builds (listen ss d) = builds d"
  "script (listen ss d) = script d"
  "listeners (listen ss d) = listeners d @ ss"
  "trace (listen ss d) = trace d @ map DenoSignal ss"
  by (induction ss arbitrary: d; simp add: emit_def)+

lemma quiet_signals: "quiet (map DenoSignal ss) \<and> spawned (map DenoSignal ss) = []"
  by (induction ss) (simp_all add: quiet_def)

lemma onExit_fields:
  "processes (onExit h d) = processes d"
  "exited (onExit h d) = exited d"
  "monitors (onExit h d) = monitors d"
  "builds (onExit h d) = builds d"
  "script (onExit h d) = script d"
  by (simp_all add: onExit_def listen_fields)

lemma onExit_trace: "\<exists>t. trace (onExit h d) = trace d @ t \<and> quiet t \<and> spawned t = []"
  using quiet_signals[of signs] by (simp add: onExit_def listen_fields quiet_Nil)

lemma after_start_fields:
  "processes (snd (after_start h c opts d)) = processes d"
  "exited (snd (after_start h c opts d)) = exited d"
  "monitors (snd (after_start h c opts d)) = monitors d"
  "builds (snd (after_start h c opts d)) = builds d"
  "script (snd (after_start h c opts d)) = script d"
  by (cases c; simp add: Let_def emit_def onExit_fields)+

lemma step_settle_start:
  "\<not> exited d \<Longrightarrow> exe (commands ! i) = p \<Longrightarrow>
   step h (Settle p (Resolved st)) (AwaitStatus c commands i, d) = Some (start_loop h c commands (Suc i) d)"
  by (simp add: on_settle_def)

lemma start_loop_last:
  "i < length commands \<Longrightarrow> i = length commands - 1 \<Longrightarrow>
   start_loop h c commands i d =
     after_start h c (options (last commands))
       (d\<lparr>processes := AList.update (pid (exe (last commands))) (exe (last commands)) (processes d),
          trace := trace d @ [Exe (exe (last commands)),
            Log Debug (S_starting (pid (exe (last commands)))),
            Log Warning (Starting_main (cmd (last commands))),
            Log Debug (M_monitoring (pid (exe (last commands)))),
            StatusCall (exe (last commands))],
          monitors := monitors d @ [(exe (last commands), options (last commands))]\<rparr>)"
proof -
  assume a: "i < length commands" "i = length commands - 1"
  then have "commands \<noteq> []" by auto
  then have "last commands = commands ! i" using a by (simp add: last_conv_nth)
  then show ?thesis using a
    by (simp add: start_loop_def Let_def monitor_def emit_def log_defs)
qed

lemma start_loop_sequential:
  "i < length commands - 1 \<Longrightarrow>
   start_loop h c commands i d =
     (AwaitStatus c commands i,
      d\<lparr>trace := trace d @ [Exe (exe (commands ! i)),
            Log Debug (S_starting (pid (exe (commands ! i)))),
            Log Info (Starting_sequential (cmd (commands ! i))),
            StatusCall (exe (commands ! i))]\<rparr>)"
proof -
  assume "i < length commands - 1"
  then have "i < length commands" "i \<noteq> length commands - 1" by arith+
  then show ?thesis
    by (simp add: start_loop_def Let_def emit_def log_defs)
qed

lemma start_loop_empty:
  "length commands \<le> i \<Longrightarrow> start_loop h c commands i d = after_start h c \<lparr>watch = None\<rparr> d"
  by (simp add: start_loop_def)

lemma settles_Nil: "settles commands [] = []"
  by (simp add: settles_def)

lemma settles_Cons:
  "i < length commands \<Longrightarrow>
   settles (drop i commands) (st # sts) =
     Settle (exe (commands ! i)) (Resolved st) # settles (drop (Suc i) commands) sts"
  by (simp add: settles_def Cons_nth_drop_Suc[symmetric])

lemma chain_run:
  "\<not> exited d \<Longrightarrow> i < length commands \<Longrightarrow> length sts = length commands - 1 - i \<Longrightarrow>
   \<exists>dN t. run h (settles (drop i commands) sts) (start_loop h c commands i d) =
        Some (after_start h c (options (last commands)) dN) \<and>
      processes dN = AList.update (pid (exe (last commands))) (exe (last commands)) (processes d) \<and>
      monitors dN = monitors d @ [(exe (last commands), options (last commands))] \<and>
      exited dN = exited d \<and> builds dN = builds d \<and> script dN = script d \<and>
      listeners dN = listeners d \<and>
      trace dN = trace d @ t \<and> quiet t \<and> spawned t = map exe (drop i commands)"
proof (induction sts arbitrary: i d)
  case Nil
  then have i: "i = length commands - 1" by simp
  then have dr: "drop i commands = [last commands]"
    using Nil.prems(2)
    by (metis Cons_nth_drop_Suc Suc_diff_1 drop_all last_conv_nth length_greater_0_conv
        less_nat_zero_code list.size(3) order_refl)
  let ?dN = "d\<lparr>processes := AList.update (pid (exe (last commands))) (exe (last commands)) (processes d),
          trace := trace d @ [Exe (exe (last commands)),
            Log Debug (S_starting (pid (exe (last commands)))),
            Log Warning (Starting_main (cmd (last commands))),
            Log Debug (M_monitoring (pid (exe (last commands)))),
            StatusCall (exe (last commands))],
          monitors := monitors d @ [(exe (last commands), options (last commands))]\<rparr>"
  have "run h (settles (drop i commands) []) (start_loop h c commands i d) =
      Some (after_start h c (options (last commands)) ?dN)"
    using start_loop_last[OF Nil.prems(2) i] by (simp add: settles_Nil)
  then show ?case
    by (intro exI[of _ ?dN] exI[of _ "[Exe (exe (last commands)),
            Log Debug (S_starting (pid (exe (last commands)))),
            Log Warning (Starting_main (cmd (last commands))),
            Log Debug (M_monitoring (pid (exe (last commands)))),
            StatusCall (exe (last commands))]"])
       (simp add: quiet_def dr)
next
  case (Cons st sts)
  then have i: "i < length commands - 1" by simp
  let ?t1 = "[Exe (exe (commands ! i)),
            Log Debug (S_starting (pid (exe (commands ! i)))),
            Log Info (Starting_sequential (cmd (commands ! i))),
            StatusCall (exe (commands ! i))]"
  let ?d1 = "d\<lparr>trace := trace d @ ?t1\<rparr>"
  have sl: "start_loop h c commands i d = (AwaitStatus c commands i, ?d1)"
    by (rule start_loop_sequential[OF i])
  have ex: "\<not> exited ?d1" using Cons.prems(1) by simp
  have st: "step h (Settle (exe (commands ! i)) (Resolved st)) (AwaitStatus c commands i, ?d1) =
      Some (start_loop h c commands (Suc i) ?d1)"
    by (rule step_settle_start[OF ex refl])
  have len: "length sts = length commands - 1 - Suc i" using Cons.prems(3) by simp
  have si: "Suc i < length commands" using i by simp
  from Cons.IH[OF ex si len] obtain dN t where
    IH: "run h (settles (drop (Suc i) commands) sts) (start_loop h c commands (Suc i) ?d1) =
        Some (after_start h c (options (last commands)) dN)"
      "processes dN = AList.update (pid (exe (last commands))) (exe (last commands)) (processes ?d1)"
      "monitors dN = monitors ?d1 @ [(exe (last commands), options (last commands))]"
      "exited dN = exited ?d1" "builds dN = builds ?d1" "script dN = script ?d1"
      "listeners dN = listeners ?d1"
      "trace dN = trace ?d1 @ t" "quiet t" "spawned t = map exe (drop (Suc i) commands)"
    by blast
  have run: "run h (settles (drop i commands) (st # sts)) (start_loop h c commands i d) =
      Some (after_start h c (options (last commands)) dN)"
    using IH(1) st sl settles_Cons[OF Cons.prems(2)] by simp
  have dr: "drop i commands = commands ! i # drop (Suc i) commands"
    using Cons.prems(2) by (simp add: Cons_nth_drop_Suc)
  show ?case
    using run IH(2-10)
    by (intro exI[of _ dN] exI[of _ "?t1 @ t"]) (simp add: quiet_def dr yields_append)
qed

lemmas ex_defs = main_7_def main_8_def setup_6_def ex_setup_def ex_main_def ex_once_def ex_batch_def tracked_7_def

lemma kill_each_throws:
  "set ks \<subseteq> fst ` set pc \<Longrightarrow>
   (fst (kill_each h pc ks d) = Thrown) = (\<exists>k\<in>set ks. request_throws h (the (map_of pc k)))"
proof (induction ks arbitrary: d)
  case Nil
  show ?case by simp
next
  case (Cons k ks)
  then obtain p where p: "map_of pc k = Some p"
    by (metis list.set_intros(1) subsetD weak_map_of_SomeI map_of_eq_None_iff not_Some_eq)
  from Cons.prems have sub: "set ks \<subseteq> fst ` set pc" by simp
  show ?case
  proof (cases "request_throws h p")
    case True
    then have "fst (kill_each h pc (k # ks) d) = Thrown"
      using p by (simp add: request_throws_def Let_def split: if_splits)
    then show ?thesis using True p by simp
  next
    case False
    then have "\<exists>d1. kill_each h pc (k # ks) d = kill_each h pc ks d1"
      using p by (cases "os h = ''windows''") (auto simp: request_throws_def Let_def)
    then obtain d1 where "kill_each h pc (k # ks) d = kill_each h pc ks d1" by blast
    then show ?thesis using Cons.IH[OF sub, of d1] False p by simp
  qed
qed

lemma verdicts_status:
  "verdicts n [Log Debug (M_got_status n), x] = verdicts n [x]"
  "verdicts n [Log Debug (M_error_status n), x] = verdicts n [x]"
  "verdicts n [Log Debug (M_got_status n), x, exit_message a b] = verdicts n [x]"
  "verdicts n [Log Debug (M_exited_on_its_own n)] = [Log Debug (M_exited_on_its_own n)]"
  "verdicts n [Log Debug (M_was_killed n)] = [Log Debug (M_was_killed n)]"
  by (simp_all add: verdicts_def exit_message_def)

lemma monitor_resume_verdict:
  "verdicts (pid p) (drop (length (trace d)) (trace (monitor_resume p opts out d))) =
     [if pid p \<in> fst ` set (processes d) then Log Debug (M_exited_on_its_own (pid p))
      else Log Debug (M_was_killed (pid p))]"
  by (cases out) (simp_all add: monitor_resume_Resolved monitor_resume_Rejected verdicts_status)

lemma monitor_resume_empty:
  "processes d = [] \<Longrightarrow> processes (monitor_resume p opts out d) = []"
  by (cases out) (simp_all add: monitor_resume_Resolved monitor_resume_Rejected)

lemma unregistered_no_key: "map_of r k = None \<Longrightarrow> k \<notin> set (Object_keys r)"
  by (simp add: set_Object_keys registered_iff)

lemma step_feed:
  "step h (Feed (Some b)) (AwaitWatcher, d) =
     (if exited d then None
      else if (\<exists>e\<in>set b. ''modify'' \<in> set (type e)) then
        Some (YieldedReload,
          d\<lparr>trace := trace d @ [Log Debug R_reload_detected, Yield (DReload b)]\<rparr>)
      else Some (AwaitWatcher, d\<lparr>trace := trace d @ [WatcherNext]\<rparr>))"
  by (simp add: on_feed_def list_ex_iff emit_def log_defs)

lemma step_next_reload:
  "step h Next (YieldedReload, d) = (if exited d then None else Some (reload h d))"
  by (simp add: on_next_def)

lemma start_loop_cases:
  "i < length commands - 1 \<or> (i < length commands \<and> i = length commands - 1) \<or> length commands \<le> i"
  by arith

lemma start_loop_reload_trace:
  "\<exists>t. trace (snd (start_loop h FromReload commands i d)) = trace d @ t \<and> yields t = []"
  using start_loop_cases[of i commands]
proof (elim disjE conjE)
  assume "i < length commands - 1"
  then show ?thesis by (simp add: start_loop_sequential)
next
  assume "i < length commands" "i = length commands - 1"
  then show ?thesis by (simp add: start_loop_last emit_def)
next
  assume "length commands \<le> i"
  then show ?thesis by (simp add: start_loop_empty emit_def)
qed

lemma reload_trace: "\<exists>t. trace (snd (reload h d)) = trace d @ t \<and> yields t = []"
proof -
  define d1 where "d1 = (case logger (config h) of
                  Some l \<Rightarrow> if fullscreen l then emit ConsoleClear (log_debug Clearing_screen d) else d
                | None \<Rightarrow> d)"
  define d2 where "d2 = (case match (watcher (config h)) of
                  Some m \<Rightarrow> log_info (Watching_paths m) d1
                | None \<Rightarrow> d1)"
  define d3 where "d3 = (case exts (watcher (config h)) of
                  Some x \<Rightarrow> log_info (Watching_exts x) d2
                | None \<Rightarrow> d2)"
  define d4 where "d4 = log_info Restarting d3"
  have r: "reload h d = (case killAll h d4 of
           (Thrown, d5) \<Rightarrow> (Completed, emit NextRejected d5)
         | (Normal, d5) \<Rightarrow> start h FromReload d5)"
    unfolding reload_def d1_def d2_def d3_def d4_def Let_def by (rule refl)
  have t1: "\<exists>t. trace d1 = trace d @ t \<and> yields t = []"
    by (simp add: d1_def emit_def log_defs split: option.split)
  have t2: "\<exists>t. trace d2 = trace d1 @ t \<and> yields t = []"
    by (simp add: d2_def emit_def log_defs split: option.split)
  have t3: "\<exists>t. trace d3 = trace d2 @ t \<and> yields t = []"
    by (simp add: d3_def emit_def log_defs split: option.split)
  have t4: "\<exists>t. trace d4 = trace d3 @ t \<and> yields t = []"
    by (simp add: d4_def emit_def log_defs)
  from t1 t2 t3 t4 have t14: "\<exists>t. trace d4 = trace d @ t \<and> yields t = []"
    by (auto simp: yields_append)
  obtain t5 where t5: "trace (snd (killAll h d4)) = trace d4 @ t5" "yields t5 = []"
    using killAll_trace[of h d4] by (auto simp: quiet_def)
  obtain t0 where t0: "trace d4 = trace d @ t0" "yields t0 = []" using t14 by blast
  show ?thesis
  proof (cases "fst (killAll h d4)")
    case Thrown
    then have "reload h d = (Completed, emit NextRejected (snd (killAll h d4)))"
      unfolding r by (cases "killAll h d4") simp
    then show ?thesis using t5 t0
      by (intro exI[of _ "t0 @ t5 @ [NextRejected]"]) (simp add: emit_def yields_append)
  next
    case Normal
    then have "reload h d = start h FromReload (snd (killAll h d4))"
      unfolding r by (cases "killAll h d4") simp
    moreover obtain t6 where "trace (snd (start h FromReload (snd (killAll h d4)))) =
        trace (snd (killAll h d4)) @ t6" "yields t6 = []"
      using start_loop_reload_trace[of h "build h (builds (snd (killAll h d4))) (script (snd (killAll h d4)))" 0
          "(snd (killAll h d4))\<lparr>builds := Suc (builds (snd (killAll h d4)))\<rparr>"]
      by (auto simp: start_def Let_def)
    ultimately show ?thesis using t5 t0
      by (intro exI[of _ "t0 @ t5 @ t6"]) (simp add: yields_append)
  qed
qed

lemma reload_split:
  "\<exists>d4 t. trace d4 = trace d @ t \<and> quiet t \<and> spawned t = [] \<and>
     processes d4 = processes d \<and> exited d4 = exited d \<and> script d4 = script d \<and>
     builds d4 = builds d \<and> monitors d4 = monitors d \<and> listeners d4 = listeners d \<and>
     reload h d = (case killAll h d4 of
           (Thrown, d5) \<Rightarrow> (Completed, emit NextRejected d5)
         | (Normal, d5) \<Rightarrow> start h FromReload d5)"
proof -
  define d1 where "d1 = (case logger (config h) of
                  Some l \<Rightarrow> if fullscreen l then emit ConsoleClear (log_debug Clearing_screen d) else d
                | None \<Rightarrow> d)"
  define d2 where "d2 = (case match (watcher (config h)) of
                  Some m \<Rightarrow> log_info (Watching_paths m) d1
                | None \<Rightarrow> d1)"
  define d3 where "d3 = (case exts (watcher (config h)) of
                  Some x \<Rightarrow> log_info (Watching_exts x) d2
                | None \<Rightarrow> d2)"
  define d4 where "d4 = log_info Restarting d3"
  have r: "reload h d = (case killAll h d4 of
           (Thrown, d5) \<Rightarrow> (Completed, emit NextRejected d5)
         | (Normal, d5) \<Rightarrow> start h FromReload d5)"
    unfolding reload_def d1_def d2_def d3_def d4_def Let_def by (rule refl)
  have t1: "\<exists>t. d1 = d\<lparr>trace := trace d @ t\<rparr> \<and> quiet t \<and> spawned t = []"
  proof (cases "logger (config h)")
    case None
    then show ?thesis by (intro exI[of _ "[]"]) (simp add: d1_def quiet_def)
  next
    case (Some l)
    show ?thesis
    proof (cases "fullscreen l")
      case True
      with Some show ?thesis
        by (intro exI[of _ "[Log Debug Clearing_screen, ConsoleClear]"])
           (simp add: d1_def emit_def log_defs quiet_def)
    next
      case False
      with Some show ?thesis by (intro exI[of _ "[]"]) (simp add: d1_def quiet_def)
    qed
  qed
  have t2: "\<exists>t. d2 = d1\<lparr>trace := trace d1 @ t\<rparr> \<and> quiet t \<and> spawned t = []"
  proof (cases "match (watcher (config h))")
    case None
    then show ?thesis by (intro exI[of _ "[]"]) (simp add: d2_def quiet_def)
  next
    case (Some m)
    then show ?thesis
      by (intro exI[of _ "[Log Info (Watching_paths m)]"])
         (simp add: d2_def emit_def log_defs quiet_def)
  qed
  have t3: "\<exists>t. d3 = d2\<lparr>trace := trace d2 @ t\<rparr> \<and> quiet t \<and> spawned t = []"
  proof (cases "exts (watcher (config h))")
    case None
    then show ?thesis by (intro exI[of _ "[]"]) (simp add: d3_def quiet_def)
  next
    case (Some x)
    then show ?thesis
      by (intro exI[of _ "[Log Info (Watching_exts x)]"])
         (simp add: d3_def emit_def log_defs quiet_def)
  qed
  have t4: "d4 = d3\<lparr>trace := trace d3 @ [Log Info Restarting]\<rparr>"
    by (simp add: d4_def emit_def log_defs)
  from t1 obtain a where a: "d1 = d\<lparr>trace := trace d @ a\<rparr>" "quiet a" "spawned a = []" by blast
  from t2 obtain b where b: "d2 = d1\<lparr>trace := trace d1 @ b\<rparr>" "quiet b" "spawned b = []" by blast
  from t3 obtain c where c: "d3 = d2\<lparr>trace := trace d2 @ c\<rparr>" "quiet c" "spawned c = []" by blast
  have d4: "d4 = d\<lparr>trace := trace d @ (a @ b @ c @ [Log Info Restarting])\<rparr>"
    by (simp add: t4 a(1) b(1) c(1))
  have q: "quiet (a @ b @ c @ [Log Info Restarting])" "spawned (a @ b @ c @ [Log Info Restarting]) = []"
    using a b c by (simp_all add: quiet_append spawned_append) (simp add: quiet_def)
  show ?thesis
    using r q by (intro exI[of _ d4] exI[of _ "a @ b @ c @ [Log Info Restarting]"]) (simp add: d4)
qed

lemma after_start_gen:
  "fst (after_start h c opts d) = AwaitWatcher \<or> fst (after_start h c opts d) = YieldedExit"
  by (cases c) (simp_all add: Let_def)

lemma at_most_one_after_start:
  "length (processes d) \<le> 1 \<Longrightarrow> at_most_one (after_start h c opts d)"
  using after_start_gen[of h c opts d]
  by (auto simp: at_most_one_def after_start_fields)

lemma at_most_one_start_loop:
  "processes d = [] \<Longrightarrow> at_most_one (start_loop h c commands i d)"
  using start_loop_cases[of i commands]
proof (elim disjE conjE)
  assume "processes d = []" "i < length commands - 1"
  then show ?thesis by (simp add: start_loop_sequential at_most_one_def)
next
  assume "processes d = []" "i < length commands" "i = length commands - 1"
  then show ?thesis by (simp add: start_loop_last at_most_one_after_start)
next
  assume "processes d = []" "length commands \<le> i"
  then show ?thesis by (simp add: start_loop_empty at_most_one_after_start)
qed

lemma at_most_one_start:
  "processes d = [] \<Longrightarrow> at_most_one (start h c d)"
  by (simp add: start_def Let_def at_most_one_start_loop)

lemma at_most_one_reload: "at_most_one (reload h d)"
proof -
  obtain d4 where r: "reload h d = (case killAll h d4 of
           (Thrown, d5) \<Rightarrow> (Completed, emit NextRejected d5)
         | (Normal, d5) \<Rightarrow> start h FromReload d5)"
    using reload_split[of d h] by blast
  have e: "processes (snd (killAll h d4)) = []" by (rule killAll_fields(1))
  show ?thesis
  proof (cases "killAll h d4")
    case (Pair r5 d5)
    with e have e5: "processes d5 = []" by simp
    show ?thesis
    proof (cases r5)
      case Normal
      then show ?thesis using r Pair e5 by (simp add: at_most_one_start)
    next
      case Thrown
      then show ?thesis using r Pair e5 by (simp add: at_most_one_def emit_def)
    qed
  qed
qed

lemma at_most_one_next:
  "at_most_one (g, d) \<Longrightarrow> on_next h g d = Some c' \<Longrightarrow> at_most_one c'"
proof (cases g)
  case SuspendedStart
  assume "at_most_one (g, d)" "on_next h g d = Some c'"
  then show ?thesis using SuspendedStart by (auto simp: on_next_def at_most_one_def emit_def)
next
  case YieldedStart
  assume "at_most_one (g, d)" "on_next h g d = Some c'"
  then show ?thesis using YieldedStart at_most_one_start[of d h FromIterate]
    by (auto simp: on_next_def at_most_one_def)
next
  case (AwaitStatus x31 x32 x33)
  assume "on_next h g d = Some c'"
  then show ?thesis using AwaitStatus by (simp add: on_next_def)
next
  case AwaitWatcher
  assume "on_next h g d = Some c'"
  then show ?thesis using AwaitWatcher by (simp add: on_next_def)
next
  case YieldedReload
  assume "on_next h g d = Some c'"
  then show ?thesis using YieldedReload at_most_one_reload[of h d] by (auto simp: on_next_def)
next
  case YieldedExit
  assume "at_most_one (g, d)" "on_next h g d = Some c'"
  then show ?thesis using YieldedExit by (auto simp: on_next_def at_most_one_def emit_def)
next
  case Completed
  assume "at_most_one (g, d)" "on_next h g d = Some c'"
  then show ?thesis using Completed by (auto simp: on_next_def at_most_one_def emit_def)
qed

lemma at_most_one_monitor:
  "at_most_one (g, d) \<Longrightarrow> at_most_one (g, monitor_resume p opts out (d\<lparr>monitors := ms\<rparr>))"
proof -
  assume a: "at_most_one (g, d)"
  let ?d = "d\<lparr>monitors := ms\<rparr>"
  have l: "length (processes (monitor_resume p opts out ?d)) \<le> length (processes d)"
    using monitor_resume_length[of p opts out ?d] by simp
  have e: "processes d = [] \<Longrightarrow> processes (monitor_resume p opts out ?d) = []"
    using monitor_resume_empty[of ?d p opts out] by simp
  show ?thesis using a l e by (cases g) (auto simp: at_most_one_def)
qed

lemma at_most_one_settle:
  "at_most_one (g, d) \<Longrightarrow> on_settle h p out g d = Some c' \<Longrightarrow> at_most_one c'"
proof (cases "awaiting g p")
  case True
  assume a: "at_most_one (g, d)" "on_settle h p out g d = Some c'"
  from True obtain c commands i where g: "g = AwaitStatus c commands i" "exe (commands ! i) = p"
    by (cases g) auto
  with a have e: "processes d = []" by (simp add: at_most_one_def)
  show ?thesis
  proof (cases out)
    case (Resolved st)
    then have "c' = start_loop h c commands (Suc i) d" using a(2) g by (simp add: on_settle_def)
    then show ?thesis using e by (simp add: at_most_one_start_loop)
  next
    case Rejected
    then have "c' = (Completed, emit NextRejected d)" using a(2) g by (simp add: on_settle_def)
    then show ?thesis using e by (simp add: at_most_one_def emit_def)
  qed
next
  case False
  assume a: "at_most_one (g, d)" "on_settle h p out g d = Some c'"
  from False have n: "(case g of
              AwaitStatus c commands i \<Rightarrow>
                if exe (commands ! i) = p then Some (c, commands, i) else None
            | _ \<Rightarrow> None) = None"
    by (cases g) auto
  from a(2) obtain m where "c' = (g, monitor_resume p (snd m) out (d\<lparr>monitors := remove1 m (monitors d)\<rparr>))"
    unfolding on_settle_def n by (auto split: option.splits)
  then show ?thesis using a(1) by (simp add: at_most_one_monitor)
qed

lemma at_most_one_feed:
  "at_most_one (g, d) \<Longrightarrow> on_feed b g d = Some c' \<Longrightarrow> at_most_one c'"
  by (cases g; cases b) (auto simp: on_feed_def at_most_one_def emit_def log_defs split: if_splits)

lemma at_most_one_signal:
  "on_signal h s g d = Some c' \<Longrightarrow> at_most_one c'"
proof -
  assume a: "on_signal h s g d = Some c'"
  let ?k = "killAll h (d\<lparr>listeners := remove1 s (listeners d)\<rparr>)"
  have e: "processes (snd ?k) = []" by (rule killAll_fields(1))
  obtain r5 d5 where k: "?k = (r5, d5)" by (cases ?k)
  with e have e5: "processes d5 = []" by simp
  from a k have "c' = (g, (emit (DenoExit 0) d5)\<lparr>exited := True\<rparr>) \<or> c' = (g, emit UnhandledRejection d5)"
    by (cases r5) (auto simp: on_signal_def split: if_splits)
  then show ?thesis using e5 by (cases g) (auto simp: at_most_one_def emit_def)
qed

lemma at_most_one_step:
  "at_most_one c \<Longrightarrow> step h e c = Some c' \<Longrightarrow> at_most_one c'"
proof -
  assume a: "at_most_one c" "step h e c = Some c'"
  obtain g d where c: "c = (g, d)" by (cases c)
  from a(2) c have ne: "\<not> exited d" by (auto split: if_splits)
  show ?thesis
  proof (cases e)
    case Next
    then show ?thesis using a c ne at_most_one_next[of g d h c'] by simp
  next
    case (Settle p out)
    then show ?thesis using a c ne at_most_one_settle[of g d h p out c'] by simp
  next
    case (Feed b)
    then show ?thesis using a c ne at_most_one_feed[of g d b c'] by simp
  next
    case (Signal s)
    then show ?thesis using a c ne at_most_one_signal[of h s g d c'] by simp
  qed
qed

lemma at_most_one_run:
  "at_most_one c \<Longrightarrow> run h evs c = Some c' \<Longrightarrow> at_most_one c'"
proof (induction evs arbitrary: c)
  case Nil
  then show ?case by simp
next
  case (Cons e evs)
  then obtain c1 where s: "step h e c = Some c1" "run h evs c1 = Some c'"
    by (auto split: option.splits)
  from at_most_one_step[OF Cons.prems(1) s(1)] Cons.IH s(2) show ?case by blast
qed

lemma at_most_one_init: "at_most_one (iterate (Daemon s), Daemon s)"
  by (simp add: at_most_one_def iterate_def Daemon_def)

lemma at_most_one_keys: "at_most_one (g, d) \<Longrightarrow> length (Object_keys (processes d)) \<le> 1"
proof -
  assume "at_most_one (g, d)"
  then have "length (processes d) \<le> 1" by (simp add: at_most_one_def)
  moreover have "length (Object_keys (processes d)) \<le> length (processes d)"
    using length_remdups_leq[of "map fst (processes d)"] by (simp add: Object_keys_def)
  ultimately show ?thesis by simp
qed

lemma take_settles_Suc:
  "i < length commands \<Longrightarrow>
   take (Suc k) (settles (drop i commands) (st # sts)) =
     Settle (exe (commands ! i)) (Resolved st) # take k (settles (drop (Suc i) commands) sts)"
  by (simp add: settles_Cons)

lemma chain_run_partial:
  "\<not> exited d \<Longrightarrow> i + k < length commands - 1 \<Longrightarrow> length sts = length commands - 1 - i \<Longrightarrow>
   \<exists>dk t. run h (take k (settles (drop i commands) sts)) (start_loop h c commands i d) =
        Some (AwaitStatus c commands (i + k), dk) \<and>
      processes dk = processes d \<and> monitors dk = monitors d \<and>
      trace dk = trace d @ t \<and> quiet t \<and> spawned t = map exe (take (Suc k) (drop i commands))"
proof (induction k arbitrary: i d sts)
  case 0
  then have i: "i < length commands - 1" by simp
  then have il: "i < length commands" by arith
  let ?t1 = "[Exe (exe (commands ! i)),
            Log Debug (S_starting (pid (exe (commands ! i)))),
            Log Info (Starting_sequential (cmd (commands ! i))),
            StatusCall (exe (commands ! i))]"
  have dr: "take (Suc 0) (drop i commands) = [commands ! i]"
    using il by (simp add: take_Suc_conv_app_nth)
  show ?case
    using start_loop_sequential[OF i, of h c d]
    by (intro exI[of _ "d\<lparr>trace := trace d @ ?t1\<rparr>"] exI[of _ ?t1]) (simp add: quiet_def dr)
next
  case (Suc k)
  then have i: "i < length commands - 1" by simp
  then have il: "i < length commands" by arith
  from Suc.prems(2,3) obtain st sts' where sts: "sts = st # sts'"
    by (cases sts) auto
  let ?t1 = "[Exe (exe (commands ! i)),
            Log Debug (S_starting (pid (exe (commands ! i)))),
            Log Info (Starting_sequential (cmd (commands ! i))),
            StatusCall (exe (commands ! i))]"
  let ?d1 = "d\<lparr>trace := trace d @ ?t1\<rparr>"
  have sl: "start_loop h c commands i d = (AwaitStatus c commands i, ?d1)"
    by (rule start_loop_sequential[OF i])
  have ex: "\<not> exited ?d1" using Suc.prems(1) by simp
  have st: "step h (Settle (exe (commands ! i)) (Resolved st)) (AwaitStatus c commands i, ?d1) =
      Some (start_loop h c commands (Suc i) ?d1)"
    by (rule step_settle_start[OF ex refl])
  have b: "Suc i + k < length commands - 1" using Suc.prems(2) by simp
  have len: "length sts' = length commands - 1 - Suc i" using Suc.prems(3) sts by simp
  from Suc.IH[OF ex b len] obtain dk t where
    IH: "run h (take k (settles (drop (Suc i) commands) sts')) (start_loop h c commands (Suc i) ?d1) =
        Some (AwaitStatus c commands (Suc i + k), dk)"
      "processes dk = processes ?d1" "monitors dk = monitors ?d1"
      "trace dk = trace ?d1 @ t" "quiet t"
      "spawned t = map exe (take (Suc k) (drop (Suc i) commands))"
    by blast
  have run: "run h (take (Suc k) (settles (drop i commands) sts)) (start_loop h c commands i d) =
      Some (AwaitStatus c commands (i + Suc k), dk)"
    using IH(1) st sl take_settles_Suc[OF il, of k st sts'] sts by simp
  have dr: "take (Suc (Suc k)) (drop i commands) = commands ! i # take (Suc k) (drop (Suc i) commands)"
    using il by (simp add: Cons_nth_drop_Suc[symmetric])
  show ?case
    using run IH(2-6)
    by (intro exI[of _ dk] exI[of _ "?t1 @ t"]) (simp add: quiet_def dr yields_append)
qed

lemma start_chain_partial:
  assumes "\<not> exited d" "commands = build h (builds d) (script d)" "k < length commands - 1"
    "length sts = length commands - 1"
  shows "\<exists>dk t. run h (take k (settles commands sts)) (start h c d) =
        Some (AwaitStatus c commands k, dk) \<and>
      trace dk = trace d @ t \<and> spawned t = map exe (take (Suc k) commands) \<and>
      processes dk = processes d \<and> monitors dk = monitors d"
proof -
  let ?d0 = "d\<lparr>builds := Suc (builds d)\<rparr>"
  have s: "start h c d = start_loop h c commands 0 ?d0"
    using assms(2) by (simp add: start_def Let_def)
  have "\<not> exited ?d0" "0 + k < length commands - 1" "length sts = length commands - 1 - 0"
    using assms by simp_all
  from chain_run_partial[OF this, of h c] show ?thesis
    unfolding s by auto
qed

lemma start_chain_full:
  assumes "\<not> exited d" "commands = build h (builds d) (script d)" "commands \<noteq> []"
    "length sts = length commands - 1"
  shows "\<exists>dN t. run h (settles commands sts) (start h c d) =
        Some (after_start h c (options (last commands)) dN) \<and>
      trace dN = trace d @ t \<and> quiet t \<and> spawned t = map exe commands \<and>
      processes dN = AList.update (pid (exe (last commands))) (exe (last commands)) (processes d) \<and>
      monitors dN = monitors d @ [(exe (last commands), options (last commands))] \<and>
      exited dN = exited d \<and> script dN = script d \<and> builds dN = Suc (builds d)"
proof -
  let ?d0 = "d\<lparr>builds := Suc (builds d)\<rparr>"
  have s: "start h c d = start_loop h c commands 0 ?d0"
    using assms(2) by (simp add: start_def Let_def)
  have "\<not> exited ?d0" "0 < length commands" "length sts = length commands - 1 - 0"
    using assms by simp_all
  from chain_run[OF this, of h c] show ?thesis
    unfolding s by auto
qed

lemma run_snoc:
  "run h (evs @ [e]) c = (case run h evs c of None \<Rightarrow> None | Some c' \<Rightarrow> step h e c')"
  by (induction evs arbitrary: c) (simp_all split: option.split)

lemma run_append:
  "run h (evs @ evs') c = (case run h evs c of None \<Rightarrow> None | Some c' \<Rightarrow> run h evs' c')"
  by (induction evs arbitrary: c) (simp_all split: option.split)

lemma reload_normal:
  assumes "\<forall>k\<in>set (Object_keys (processes d)). \<not> request_throws h (the (map_of (processes d) k))"
  shows "\<exists>d5 t. reload h d = start h FromReload d5 \<and> exited d5 = exited d \<and>
     builds d5 = builds d \<and> script d5 = script d \<and> processes d5 = [] \<and>
     monitors d5 = monitors d \<and> trace d5 = trace d @ t \<and> quiet t \<and> spawned t = []"
proof -
  from reload_split[of d h] obtain d4 t where d4:
    "trace d4 = trace d @ t" "quiet t" "spawned t = []"
    "processes d4 = processes d" "exited d4 = exited d" "script d4 = script d"
    "builds d4 = builds d" "monitors d4 = monitors d"
    "reload h d = (case killAll h d4 of
           (Thrown, d5) \<Rightarrow> (Completed, emit NextRejected d5)
         | (Normal, d5) \<Rightarrow> start h FromReload d5)"
    by blast
  have "fst (killAll h d4) \<noteq> Thrown"
    using kill_each_throws[of "Object_keys (processes d4)" "processes d4" h] assms d4(4)
    unfolding killAll_unfold by (simp add: set_Object_keys)
  then have n: "fst (killAll h d4) = Normal" by (cases "fst (killAll h d4)") simp_all
  then have r: "reload h d = start h FromReload (snd (killAll h d4))"
    using d4(9) by (cases "killAll h d4") simp
  obtain t5 where t5: "trace (snd (killAll h d4)) = trace d4 @ t5" "quiet t5" "spawned t5 = []"
    using killAll_trace[of h d4] by blast
  show ?thesis
    using r d4 t5
    by (intro exI[of _ "snd (killAll h d4)"] exI[of _ "t @ t5"])
       (simp add: killAll_fields quiet_append spawned_append)
qed

lemma after_start_no_watch:
  "\<not> truthy (watch opts) \<Longrightarrow>
   after_start h FromIterate opts d = (YieldedExit, emit (Yield DExit) (onExit h d))"
  by (simp add: Let_def)

lemma quiet_keeps:
  "trace d' = trace d @ t \<Longrightarrow> quiet t \<Longrightarrow>
   yields (trace d') = yields (trace d) \<and>
   (WatcherNext \<in> set (trace d')) = (WatcherNext \<in> set (trace d))"
  by (auto simp: quiet_def yields_append)

lemma exit_only_after_start:
  assumes "\<not> truthy (watch opts)" "WatcherNext \<notin> set (trace d)" "script d = s"
    "yields (trace d) = [DStart]"
  shows "exit_only h s (after_start h FromIterate opts d)"
proof -
  obtain t where t: "trace (onExit h d) = trace d @ t" "quiet t"
    using onExit_trace[of h d] by blast
  from quiet_keeps[OF this] assms
  show ?thesis
    by (simp add: after_start_no_watch[OF assms(1)] exit_only_def emit_def onExit_fields yields_append
        del: after_start.simps)
qed

lemma exit_only_start_loop:
  assumes "build h 0 s = [] \<or> \<not> truthy (watch (options (last (build h 0 s))))"
    "WatcherNext \<notin> set (trace d)" "script d = s" "yields (trace d) = [DStart]"
  shows "exit_only h s (start_loop h FromIterate (build h 0 s) i d)"
  using start_loop_cases[of i "build h 0 s"]
proof (elim disjE conjE)
  assume "i < length (build h 0 s) - 1"
  then show ?thesis using assms(2-4)
    by (simp add: start_loop_sequential exit_only_def yields_append)
next
  assume i: "i < length (build h 0 s)" "i = length (build h 0 s) - 1"
  then have "build h 0 s \<noteq> []" by auto
  with assms(1) have nw: "\<not> truthy (watch (options (last (build h 0 s))))" by simp
  let ?c = "last (build h 0 s)"
  let ?dN = "d\<lparr>processes := AList.update (pid (exe ?c)) (exe ?c) (processes d),
          trace := trace d @ [Exe (exe ?c), Log Debug (S_starting (pid (exe ?c))),
            Log Warning (Starting_main (cmd ?c)), Log Debug (M_monitoring (pid (exe ?c))),
            StatusCall (exe ?c)],
          monitors := monitors d @ [(exe ?c, options ?c)]\<rparr>"
  have "WatcherNext \<notin> set (trace ?dN)" "script ?dN = s" "yields (trace ?dN) = [DStart]"
    using assms(2-4) by (simp_all add: yields_append)
  from exit_only_after_start[OF nw this, of h] show ?thesis
    by (simp add: start_loop_last[OF i])
next
  assume "length (build h 0 s) \<le> i"
  then show ?thesis
    using exit_only_after_start[of "\<lparr>watch = None\<rparr>" d s h] assms(2-4)
    by (simp add: start_loop_empty truthy_def)
qed

lemma exit_only_next:
  assumes "build h 0 s = [] \<or> \<not> truthy (watch (options (last (build h 0 s))))"
    "exit_only h s (g, d)" "on_next h g d = Some c'"
  shows "exit_only h s c'"
proof (cases g)
  case SuspendedStart
  then show ?thesis using assms(2,3)
    by (auto simp: on_next_def exit_only_def emit_def yields_append)
next
  case YieldedStart
  let ?d0 = "d\<lparr>builds := Suc (builds d)\<rparr>"
  from YieldedStart assms(2) have e: "WatcherNext \<notin> set (trace d)" "script d = s"
    "yields (trace d) = [DStart]" "builds d = 0"
    by (simp_all add: exit_only_def)
  then have c: "c' = start_loop h FromIterate (build h 0 s) 0 ?d0"
    using assms(3) YieldedStart by (simp add: on_next_def start_def Let_def)
  have "WatcherNext \<notin> set (trace ?d0)" "script ?d0 = s" "yields (trace ?d0) = [DStart]"
    using e by simp_all
  from exit_only_start_loop[OF assms(1) this] show ?thesis by (simp add: c)
next
  case (AwaitStatus x31 x32 x33)
  then show ?thesis using assms(3) by (simp add: on_next_def)
next
  case AwaitWatcher
  then show ?thesis using assms(3) by (simp add: on_next_def)
next
  case YieldedReload
  then show ?thesis using assms(2) by (simp add: exit_only_def)
next
  case YieldedExit
  then show ?thesis using assms(2,3)
    by (auto simp: on_next_def exit_only_def emit_def yields_append)
next
  case Completed
  then show ?thesis using assms(2,3)
    by (auto simp: on_next_def exit_only_def emit_def yields_append)
qed

lemma exit_only_quiet:
  assumes "exit_only h s (g, d)" "trace d' = trace d @ t" "quiet t" "script d' = script d"
    "builds d' = builds d"
  shows "exit_only h s (g, d')"
  using assms(1,4,5) quiet_keeps[OF assms(2,3)]
  by (cases g) (simp_all add: exit_only_def)

lemma exit_only_settle:
  assumes "build h 0 s = [] \<or> \<not> truthy (watch (options (last (build h 0 s))))"
    "exit_only h s (g, d)" "on_settle h p out g d = Some c'"
  shows "exit_only h s c'"
proof (cases "awaiting g p")
  case True
  from True obtain c commands i where g: "g = AwaitStatus c commands i" "exe (commands ! i) = p"
    by (cases g) auto
  with assms(2) have e: "WatcherNext \<notin> set (trace d)" "script d = s"
    "yields (trace d) = [DStart]" "c = FromIterate" "commands = build h 0 s"
    by (simp_all add: exit_only_def)
  show ?thesis
  proof (cases out)
    case (Resolved st)
    then have "c' = start_loop h FromIterate (build h 0 s) (Suc i) d"
      using assms(3) g e by (simp add: on_settle_def)
    then show ?thesis using exit_only_start_loop[OF assms(1) e(1-3)] by simp
  next
    case Rejected
    then have "c' = (Completed, emit NextRejected d)" using assms(3) g by (simp add: on_settle_def)
    then show ?thesis using e by (simp add: exit_only_def emit_def yields_append)
  qed
next
  case False
  then have n: "(case g of
              AwaitStatus c commands i \<Rightarrow>
                if exe (commands ! i) = p then Some (c, commands, i) else None
            | _ \<Rightarrow> None) = None"
    by (cases g) auto
  from assms(3) obtain m where c: "c' = (g, monitor_resume p (snd m) out (d\<lparr>monitors := remove1 m (monitors d)\<rparr>))"
    unfolding on_settle_def n by (auto split: option.splits)
  let ?d = "d\<lparr>monitors := remove1 m (monitors d)\<rparr>"
  obtain t where t: "trace (monitor_resume p (snd m) out ?d) = trace ?d @ t" "quiet t"
    using monitor_resume_trace[of p "snd m" out ?d] by blast
  then have t': "trace (monitor_resume p (snd m) out ?d) = trace d @ t" by simp
  show ?thesis unfolding c
    by (rule exit_only_quiet[OF assms(2) t' t(2)]) (simp_all add: monitor_resume_fields)
qed

lemma exit_only_feed:
  "exit_only h s (g, d) \<Longrightarrow> on_feed b g d = Some c' \<Longrightarrow> exit_only h s c'"
  by (cases g) (simp_all add: on_feed_def exit_only_def)

lemma exit_only_signal:
  assumes "exit_only h s (g, d)" "on_signal h sg g d = Some c'"
  shows "exit_only h s c'"
proof -
  let ?d = "d\<lparr>listeners := remove1 sg (listeners d)\<rparr>"
  obtain r5 d5 where k: "killAll h ?d = (r5, d5)" by (cases "killAll h ?d")
  obtain t where "trace (snd (killAll h ?d)) = trace ?d @ t" "quiet t"
    using killAll_trace[of h ?d] by blast
  with k have t: "trace d5 = trace d @ t" "quiet t" by simp_all
  have f: "script d5 = script d" "builds d5 = builds d"
    using killAll_fields(5,6)[of h ?d] k by simp_all
  from assms(2) k have c: "c' = (g, (emit (DenoExit 0) d5)\<lparr>exited := True\<rparr>) \<or>
      c' = (g, emit UnhandledRejection d5)"
    by (cases r5) (auto simp: on_signal_def split: if_splits)
  have q1: "quiet (t @ [DenoExit 0])" "quiet (t @ [UnhandledRejection])"
    using t(2) by (simp_all add: quiet_append) (simp_all add: quiet_def)
  from c show ?thesis
  proof
    assume "c' = (g, (emit (DenoExit 0) d5)\<lparr>exited := True\<rparr>)"
    then show ?thesis
      using exit_only_quiet[OF assms(1) _ q1(1), of "(emit (DenoExit 0) d5)\<lparr>exited := True\<rparr>"] t(1) f
      by (simp add: emit_def)
  next
    assume "c' = (g, emit UnhandledRejection d5)"
    then show ?thesis
      using exit_only_quiet[OF assms(1) _ q1(2), of "emit UnhandledRejection d5"] t(1) f
      by (simp add: emit_def)
  qed
qed

lemma exit_only_step:
  assumes "build h 0 s = [] \<or> \<not> truthy (watch (options (last (build h 0 s))))"
    "exit_only h s c" "step h e c = Some c'"
  shows "exit_only h s c'"
proof -
  obtain g d where c: "c = (g, d)" by (cases c)
  from assms(3) c have ne: "\<not> exited d" by (auto split: if_splits)
  show ?thesis
  proof (cases e)
    case Next
    then show ?thesis using assms c ne exit_only_next[of h s g d c'] by simp
  next
    case (Settle p out)
    then show ?thesis using assms c ne exit_only_settle[of h s g d p out c'] by simp
  next
    case (Feed b)
    then show ?thesis using assms c ne exit_only_feed[of h s g d b c'] by simp
  next
    case (Signal sg)
    then show ?thesis using assms c ne exit_only_signal[of h s g d sg c'] by simp
  qed
qed

lemma exit_only_run:
  assumes "build h 0 s = [] \<or> \<not> truthy (watch (options (last (build h 0 s))))"
  shows "exit_only h s c \<Longrightarrow> run h evs c = Some c' \<Longrightarrow> exit_only h s c'"
proof (induction evs arbitrary: c)
  case Nil
  then show ?case by simp
next
  case (Cons e evs)
  then obtain c1 where s: "step h e c = Some c1" "run h evs c1 = Some c'"
    by (auto split: option.splits)
  from exit_only_step[OF assms Cons.prems(1) s(1)] Cons.IH s(2) show ?case by blast
qed

lemma exit_only_init: "exit_only h s (iterate (Daemon s), Daemon s)"
  by (simp add: exit_only_def iterate_def Daemon_def)

lemma exit_only_observed:
  "exit_only h s (g, d) \<Longrightarrow>
   prefix (yields (trace d)) [DStart, DExit] \<and> WatcherNext \<notin> set (trace d) \<and> g \<noteq> AwaitWatcher"
  by (cases g) (auto simp: exit_only_def)

lemma no_watch_completes:
  assumes "build h 0 s = [] \<or> \<not> truthy (watch (options (last (build h 0 s))))"
    and "length sts = length (build h 0 s) - 1"
  shows "\<exists>d. run h (Next # Next # settles (build h 0 s) sts @ [Next]) (iterate (Daemon s), Daemon s) =
        Some (Completed, d) \<and>
      yields (trace d) = [DStart, DExit] \<and>
      (build h 0 s = [] \<or>
       monitors d = [(exe (last (build h 0 s)), options (last (build h 0 s)))])"
proof -
  let ?cs = "build h 0 s"
  let ?d1 = "(Daemon s)\<lparr>trace := [Yield DStart]\<rparr>"
  have ne1: "\<not> exited ?d1" by (simp add: Daemon_def)
  have f1: "builds ?d1 = 0" "script ?d1 = s" "monitors ?d1 = []" "trace ?d1 = [Yield DStart]"
    by (simp_all add: Daemon_def)
  have r0: "run h (Next # Next # settles ?cs sts @ [Next]) (iterate (Daemon s), Daemon s) =
      run h (settles ?cs sts @ [Next]) (start h FromIterate ?d1)"
    by (simp add: iterate_def on_next_def emit_def Daemon_def)
  have "\<exists>dN t. run h (settles ?cs sts) (start h FromIterate ?d1) =
        Some (YieldedExit, emit (Yield DExit) (onExit h dN)) \<and>
      trace dN = trace ?d1 @ t \<and> quiet t \<and> exited dN = exited ?d1 \<and>
      (?cs = [] \<or> monitors dN = [(exe (last ?cs), options (last ?cs))])"
  proof (cases "?cs = []")
    case True
    then have "start h FromIterate ?d1 =
        after_start h FromIterate \<lparr>watch = None\<rparr> (?d1\<lparr>builds := Suc (builds ?d1)\<rparr>)"
      using f1 by (simp add: start_def Let_def start_loop_empty del: after_start.simps)
    then show ?thesis using True
      by (intro exI[of _ "?d1\<lparr>builds := Suc (builds ?d1)\<rparr>"] exI[of _ "[]"])
         (simp add: after_start_no_watch truthy_def settles_def quiet_Nil del: after_start.simps)
  next
    case False
    with assms(1) have nw: "\<not> truthy (watch (options (last ?cs)))" by simp
    have c: "?cs = build h (builds ?d1) (script ?d1)" using f1 by simp
    from start_chain_full[OF ne1 c False assms(2), of FromIterate] obtain dN t where
      "run h (settles ?cs sts) (start h FromIterate ?d1) =
          Some (after_start h FromIterate (options (last ?cs)) dN)"
      "trace dN = trace ?d1 @ t" "quiet t" "exited dN = exited ?d1"
      "monitors dN = monitors ?d1 @ [(exe (last ?cs), options (last ?cs))]"
      by blast
    then show ?thesis using f1(3)
      by (intro exI[of _ dN] exI[of _ t])
         (simp add: after_start_no_watch[OF nw] del: after_start.simps)
  qed
  then obtain dN t where dN:
    "run h (settles ?cs sts) (start h FromIterate ?d1) =
        Some (YieldedExit, emit (Yield DExit) (onExit h dN))"
    "trace dN = trace ?d1 @ t" "quiet t" "exited dN = exited ?d1"
    "?cs = [] \<or> monitors dN = [(exe (last ?cs), options (last ?cs))]"
    by blast
  let ?d2 = "emit (Yield DExit) (onExit h dN)"
  have ne2: "\<not> exited ?d2" using dN(4) ne1 by (simp add: emit_def onExit_fields)
  have r1: "run h (settles ?cs sts @ [Next]) (start h FromIterate ?d1) =
      Some (Completed, emit NextDone ?d2)"
    unfolding run_snoc dN(1) using ne2 by (simp add: on_next_def)
  obtain t' where t': "trace (onExit h dN) = trace dN @ t'" "quiet t'"
    using onExit_trace[of h dN] by blast
  have y: "yields (trace (emit NextDone ?d2)) = [DStart, DExit]"
    using dN(2,3) t' f1(4) by (simp add: emit_def yields_append quiet_def)
  have m: "monitors (emit NextDone ?d2) = monitors dN"
    by (simp add: emit_def onExit_fields)
  show ?thesis
    using r0 r1 y m dN(5) by (intro exI[of _ "emit NextDone ?d2"]) auto
qed

lemma await_blocks:
  assumes "step h e (AwaitStatus c commands k, d) = Some (g', d')"
    and "\<forall>st. e \<noteq> Settle (exe (commands ! k)) (Resolved st)"
  shows "(g' = AwaitStatus c commands k \<or> g' = Completed) \<and>
     spawned (drop (length (trace d)) (trace d')) = []"
proof -
  from assms(1) have ne: "\<not> exited d" by (auto split: if_splits)
  show ?thesis
  proof (cases e)
    case Next
    then show ?thesis using assms(1) ne by (simp add: on_next_def)
  next
    case (Feed b)
    then show ?thesis using assms(1) ne by (simp add: on_feed_def)
  next
    case (Signal sg)
    let ?d = "d\<lparr>listeners := remove1 sg (listeners d)\<rparr>"
    obtain r5 d5 where k: "killAll h ?d = (r5, d5)" by (cases "killAll h ?d")
    obtain t where "trace (snd (killAll h ?d)) = trace ?d @ t" "spawned t = []"
      using killAll_trace[of h ?d] by blast
    with k have t: "trace d5 = trace d @ t" "spawned t = []" by simp_all
    from assms(1) Signal ne k have
      "(g', d') = (AwaitStatus c commands k, (emit (DenoExit 0) d5)\<lparr>exited := True\<rparr>) \<or>
       (g', d') = (AwaitStatus c commands k, emit UnhandledRejection d5)"
      by (cases r5) (auto simp: on_signal_def split: if_splits)
    then show ?thesis using t by (auto simp: emit_def spawned_append)
  next
    case (Settle p out)
    show ?thesis
    proof (cases "exe (commands ! k) = p")
      case True
      with assms(2) Settle have "out = Rejected" by (cases out) auto
      then show ?thesis using assms(1) Settle True ne by (auto simp: on_settle_def emit_def)
    next
      case False
      with assms(1) Settle ne obtain m where
        c: "(g', d') = (AwaitStatus c commands k,
            monitor_resume p (snd m) out (d\<lparr>monitors := remove1 m (monitors d)\<rparr>))"
        by (auto simp: on_settle_def split: option.splits)
      let ?d = "d\<lparr>monitors := remove1 m (monitors d)\<rparr>"
      obtain t where "trace (monitor_resume p (snd m) out ?d) = trace ?d @ t" "spawned t = []"
        using monitor_resume_trace[of p "snd m" out ?d] by blast
      then show ?thesis using c by simp
    qed
  qed
qed


lemma reload_kills_then_starts:
  "\<exists>d4 t ks t5. trace d4 = trace d @ t \<and> quiet t \<and> spawned t = [] \<and>
     processes d4 = processes d \<and>
     prefix ks (Object_keys (processes d)) \<and>
     trace (snd (killAll h d4)) =
       trace d4 @ Log Debug (K_killing (length (Object_keys (processes d)))) # t5 \<and>
     filter is_request t5 = map (\<lambda>k. request h (the (map_of (processes d) k))) ks \<and>
     (fst (killAll h d4) = Thrown \<or> ks = Object_keys (processes d)) \<and>
     processes (snd (killAll h d4)) = [] \<and>
     reload h d =
       (if fst (killAll h d4) = Thrown
        then (Completed, emit NextRejected (snd (killAll h d4)))
        else start_loop h FromReload (build h (builds d) (script d)) 0
               ((snd (killAll h d4))\<lparr>builds := Suc (builds d)\<rparr>))"
proof -
  from reload_split[of d h] obtain d4 t where d4:
    "trace d4 = trace d @ t" "quiet t" "spawned t = []"
    "processes d4 = processes d" "script d4 = script d" "builds d4 = builds d"
    "reload h d = (case killAll h d4 of
           (Thrown, d5) \<Rightarrow> (Completed, emit NextRejected d5)
         | (Normal, d5) \<Rightarrow> start h FromReload d5)"
    by blast
  from killAll_requests[of d4 h] obtain ks t5 where k:
    "prefix ks (Object_keys (processes d4))"
    "trace (snd (killAll h d4)) =
        trace d4 @ Log Debug (K_killing (length (Object_keys (processes d4)))) # t5"
    "filter is_request t5 = map (\<lambda>k. request h (the (map_of (processes d4) k))) ks"
    "fst (killAll h d4) = Thrown \<or> ks = Object_keys (processes d4)"
    by blast
  have f: "builds (snd (killAll h d4)) = builds d" "script (snd (killAll h d4)) = script d"
    "processes (snd (killAll h d4)) = []"
    using d4(5,6) by (simp_all add: killAll_fields)
  have r: "reload h d =
       (if fst (killAll h d4) = Thrown
        then (Completed, emit NextRejected (snd (killAll h d4)))
        else start_loop h FromReload (build h (builds d) (script d)) 0
               ((snd (killAll h d4))\<lparr>builds := Suc (builds d)\<rparr>))"
  proof (cases "killAll h d4")
    case (Pair r5 d5)
    with f have f5: "builds d5 = builds d" "script d5 = script d" by simp_all
    show ?thesis
    proof (cases r5)
      case Normal
      then show ?thesis using d4(7) Pair f5 by (simp add: start_def Let_def)
    next
      case Thrown
      then show ?thesis using d4(7) Pair by simp
    qed
  qed
  show ?thesis
    apply (rule exI[of _ d4], rule exI[of _ t], rule exI[of _ ks], rule exI[of _ t5])
    using d4(1-4) k f(3) r by simp
qed





lemma iterate_again:
  "run h [Next, Next] (Symbol_asyncIterator d, d) =
     (if exited d then None
      else Some (start_loop h FromIterate (build h (builds d) (script d)) 0
                   (d\<lparr>trace := trace d @ [Yield DStart], builds := Suc (builds d)\<rparr>)))"
  by (simp add: Symbol_asyncIterator_def iterate_def on_next_def emit_def start_def Let_def)

lemma iterate_again_chain:
  assumes "\<not> exited d" "commands = build h (builds d) (script d)" "commands \<noteq> []"
    "length sts = length commands - 1"
  shows "\<exists>dN. run h (Next # Next # settles commands sts) (Symbol_asyncIterator d, d) =
        Some (after_start h FromIterate (options (last commands)) dN) \<and>
      processes dN =
        AList.update (pid (exe (last commands))) (exe (last commands)) (processes d) \<and>
      monitors dN = monitors d @ [(exe (last commands), options (last commands))] \<and>
      spawned (drop (length (trace d)) (trace dN)) = map exe commands \<and>
      yields (drop (length (trace d)) (trace dN)) = [DStart]"
proof -
  let ?d1 = "d\<lparr>trace := trace d @ [Yield DStart]\<rparr>"
  have r0: "run h (Next # Next # settles commands sts) (Symbol_asyncIterator d, d) =
      run h (settles commands sts) (start h FromIterate ?d1)"
    using assms(1) by (simp add: Symbol_asyncIterator_def iterate_def on_next_def emit_def)
  have ne: "\<not> exited ?d1" using assms(1) by simp
  have c: "commands = build h (builds ?d1) (script ?d1)" using assms(2) by simp
  from start_chain_full[OF ne c assms(3,4), of FromIterate] obtain dN t where dN:
    "run h (settles commands sts) (start h FromIterate ?d1) =
        Some (after_start h FromIterate (options (last commands)) dN)"
    "trace dN = trace ?d1 @ t" "quiet t" "spawned t = map exe commands"
    "processes dN =
        AList.update (pid (exe (last commands))) (exe (last commands)) (processes ?d1)"
    "monitors dN = monitors ?d1 @ [(exe (last commands), options (last commands))]"
    by blast
  have tr: "drop (length (trace d)) (trace dN) = Yield DStart # t" using dN(2) by simp
  show ?thesis
  proof (intro exI[of _ dN] conjI)
    show "run h (Next # Next # settles commands sts) (Symbol_asyncIterator d, d) =
        Some (after_start h FromIterate (options (last commands)) dN)"
      using r0 dN(1) by (simp only:)
    show "processes dN =
        AList.update (pid (exe (last commands))) (exe (last commands)) (processes d)"
      using dN(5) by simp
    show "monitors dN = monitors d @ [(exe (last commands), options (last commands))]"
      using dN(6) by simp
    show "spawned (drop (length (trace d)) (trace dN)) = map exe commands"
      using dN(4) by (simp add: tr)
    show "yields (drop (length (trace d)) (trace dN)) = [DStart]"
      using dN(3) by (simp add: tr quiet_def)
  qed
qed

section \<open>The claims\<close>

text \<open>
  C1. Whatever the registry holds, it is empty once \<^verbatim>\<open>killAll\<close> is over, whether the call
  returned or threw. The loop over the copy starts from a state whose registry is
  already the empty object; the keys it visits are pairwise distinct; the requests it
  issues are those for the handles under a prefix of these keys (all of them unless a
  request threw), one each, in that order and after the log line with the count; and
  a second \<^verbatim>\<open>killAll\<close> right after the first issues no request at all.
\<close>

theorem killAll_clears_registry:
  "processes (snd (killAll h d)) = [] \<and>
   killAll h d = kill_each h (processes d) (Object_keys (processes d))
     ((log_debug (K_killing (length (Object_keys (processes d)))) d)\<lparr>processes := []\<rparr>) \<and>
   distinct (Object_keys (processes d)) \<and>
   (\<exists>ks t. prefix ks (Object_keys (processes d)) \<and>
      trace (snd (killAll h d)) =
        trace d @ Log Debug (K_killing (length (Object_keys (processes d)))) # t \<and>
      filter is_request t = map (\<lambda>k. request h (the (map_of (processes d) k))) ks \<and>
      (fst (killAll h d) = Thrown \<or> ks = Object_keys (processes d))) \<and>
   filter is_request (drop (length (trace (snd (killAll h d))))
      (trace (snd (killAll h (snd (killAll h d)))))) = []"
  using killAll_fields(1) killAll_unfold distinct_Object_keys killAll_requests killAll_twice
  by (intro conjI) blast+

text \<open>
  C2. \<^verbatim>\<open>killAll\<close> has no suspension point and the rest of \<^verbatim>\<open>monitor\<close> after its \<^verbatim>\<open>await\<close> has
  none either, so each runs as a whole and there are two orders. In any state the
  continuation of \<^verbatim>\<open>monitor\<close> logs exactly one of the two lines "exited on its own" and
  "was killed" for its pid: the first if the pid is a key of the registry, the second
  if not. If it runs first, the pid is no key when \<^verbatim>\<open>killAll\<close> takes its copy, so
  \<^verbatim>\<open>killAll\<close> has no request for it, and the registry ends empty. If \<^verbatim>\<open>killAll\<close> runs
  first, the line is "was killed" and the continuation leaves the registry empty.
  (The \<^verbatim>\<open>killAll\<close> of a signal is followed by \<^verbatim>\<open>Deno.exit\<close>, after which no continuation
  runs; the \<^verbatim>\<open>killAll\<close> that a continuation can follow is the one of \<^verbatim>\<open>reload\<close>.)
\<close>

theorem race_has_one_verdict:
  "verdicts (pid p) (drop (length (trace d)) (trace (monitor_resume p opts out d))) =
     [if pid p \<in> fst ` set (processes d) then Log Debug (M_exited_on_its_own (pid p))
      else Log Debug (M_was_killed (pid p))] \<and>
   pid p \<notin> set (Object_keys (processes (monitor_resume p opts out d))) \<and>
   processes (snd (killAll h (monitor_resume p opts out d))) = [] \<and>
   verdicts (pid p) (drop (length (trace (snd (killAll h d))))
       (trace (monitor_resume p opts out (snd (killAll h d))))) =
     [Log Debug (M_was_killed (pid p))] \<and>
   processes (monitor_resume p opts out (snd (killAll h d))) = []"
proof (intro conjI)
  show "verdicts (pid p) (drop (length (trace d)) (trace (monitor_resume p opts out d))) =
     [if pid p \<in> fst ` set (processes d) then Log Debug (M_exited_on_its_own (pid p))
      else Log Debug (M_was_killed (pid p))]"
    by (rule monitor_resume_verdict)
  show "pid p \<notin> set (Object_keys (processes (monitor_resume p opts out d)))"
    by (rule unregistered_no_key[OF monitor_resume_unregisters])
  show "processes (snd (killAll h (monitor_resume p opts out d))) = []"
    by (rule killAll_fields(1))
  have e: "processes (snd (killAll h d)) = []" by (rule killAll_fields(1))
  show "verdicts (pid p) (drop (length (trace (snd (killAll h d))))
       (trace (monitor_resume p opts out (snd (killAll h d))))) =
     [Log Debug (M_was_killed (pid p))]"
    using monitor_resume_verdict[of p "snd (killAll h d)" opts out] e by simp
  show "processes (monitor_resume p opts out (snd (killAll h d))) = []"
    by (rule monitor_resume_empty[OF e])
qed

text \<open>
  C3. A call of \<^verbatim>\<open>start\<close> on a chain of N >= 1 commands, followed by the statuses of its
  first N - 1 commands as they are delivered, whatever their success flags. After k
  statuses, k < N - 1, \<^verbatim>\<open>start\<close> is suspended on the status of command k, exactly the
  first k + 1 commands have been spawned, in the order of the chain, and neither the
  registry nor the monitors have changed; from there no event but that status makes
  \<^verbatim>\<open>start\<close> go on or spawns anything (a rejected status ends the generator). After N - 1
  statuses all N commands have
  been spawned in order, the handle of the last is in the registry under its pid,
  its monitor is pending, and \<^verbatim>\<open>start\<close> has returned the options of the last command
  to its caller, with no status of the last command delivered. And in every state
  that one iteration of a new daemon can reach, on any host and under any sequence
  of events, the registry has at most one key.
\<close>

theorem chain_runs_in_order:
  assumes "\<not> exited d" and "commands = build h (builds d) (script d)" and "commands \<noteq> []"
    and "length sts = length commands - 1"
  shows "(\<forall>k<length commands - 1.
           \<exists>dk t. run h (take k (settles commands sts)) (start h c d) =
               Some (AwaitStatus c commands k, dk) \<and>
             trace dk = trace d @ t \<and> spawned t = map exe (take (Suc k) commands) \<and>
             processes dk = processes d \<and> monitors dk = monitors d) \<and>
         (\<forall>k e g' dk d'.
             step h e (AwaitStatus c commands k, dk) = Some (g', d') \<and>
             (\<forall>st. e \<noteq> Settle (exe (commands ! k)) (Resolved st)) \<longrightarrow>
             (g' = AwaitStatus c commands k \<or> g' = Completed) \<and>
             spawned (drop (length (trace dk)) (trace d')) = []) \<and>
         (\<exists>dN t. run h (settles commands sts) (start h c d) =
               Some (after_start h c (options (last commands)) dN) \<and>
             trace dN = trace d @ t \<and> spawned t = map exe commands \<and>
             processes dN =
               AList.update (pid (exe (last commands))) (exe (last commands)) (processes d) \<and>
             monitors dN = monitors d @ [(exe (last commands), options (last commands))]) \<and>
         (\<forall>h' s evs g d'. run h' evs (iterate (Daemon s), Daemon s) = Some (g, d') \<longrightarrow>
             length (Object_keys (processes d')) \<le> 1)"
proof -
  have p1: "\<forall>k<length commands - 1.
           \<exists>dk t. run h (take k (settles commands sts)) (start h c d) =
               Some (AwaitStatus c commands k, dk) \<and>
             trace dk = trace d @ t \<and> spawned t = map exe (take (Suc k) commands) \<and>
             processes dk = processes d \<and> monitors dk = monitors d"
  proof (intro allI impI)
    fix k assume "k < length commands - 1"
    from start_chain_partial[OF assms(1,2) this assms(4)]
    show "\<exists>dk t. run h (take k (settles commands sts)) (start h c d) =
               Some (AwaitStatus c commands k, dk) \<and>
             trace dk = trace d @ t \<and> spawned t = map exe (take (Suc k) commands) \<and>
             processes dk = processes d \<and> monitors dk = monitors d" .
  qed
  have p2: "\<forall>k e g' dk d'.
             step h e (AwaitStatus c commands k, dk) = Some (g', d') \<and>
             (\<forall>st. e \<noteq> Settle (exe (commands ! k)) (Resolved st)) \<longrightarrow>
             (g' = AwaitStatus c commands k \<or> g' = Completed) \<and>
             spawned (drop (length (trace dk)) (trace d')) = []"
  proof (intro allI impI)
    fix k e g' dk d'
    assume "step h e (AwaitStatus c commands k, dk) = Some (g', d') \<and>
             (\<forall>st. e \<noteq> Settle (exe (commands ! k)) (Resolved st))"
    then show "(g' = AwaitStatus c commands k \<or> g' = Completed) \<and>
             spawned (drop (length (trace dk)) (trace d')) = []"
      using await_blocks[of h e c commands k dk g' d'] by blast
  qed
  have p3: "\<exists>dN t. run h (settles commands sts) (start h c d) =
               Some (after_start h c (options (last commands)) dN) \<and>
             trace dN = trace d @ t \<and> spawned t = map exe commands \<and>
             processes dN =
               AList.update (pid (exe (last commands))) (exe (last commands)) (processes d) \<and>
             monitors dN = monitors d @ [(exe (last commands), options (last commands))]"
    using start_chain_full[OF assms, of c] by blast
  have p4: "\<forall>h' s evs g d'. run h' evs (iterate (Daemon s), Daemon s) = Some (g, d') \<longrightarrow>
             length (Object_keys (processes d')) \<le> 1"
  proof (intro allI impI)
    fix h' s evs g d'
    assume "run h' evs (iterate (Daemon s), Daemon s) = Some (g, d')"
    from at_most_one_run[OF at_most_one_init this]
    show "length (Object_keys (processes d')) \<le> 1" by (rule at_most_one_keys)
  qed
  show ?thesis by (rule conjI[OF p1 conjI[OF p2 conjI[OF p3 p4]]])
qed

text \<open>
  The chain of a setup command and a main command, with a failure status for the
  setup command.
\<close>

theorem chain_runs_in_order_witness:
  "\<not> exited (Daemon ''app'') \<and>
   [ex_setup, ex_main] = build (example_host [[ex_setup, ex_main]] ''linux'' [])
      (builds (Daemon ''app'')) (script (Daemon ''app'')) \<and>
   [ex_setup, ex_main] \<noteq> [] \<and>
   length [\<lparr>success = False\<rparr>] = length [ex_setup, ex_main] - 1 \<and>
   (\<exists>dk t. run (example_host [[ex_setup, ex_main]] ''linux'' [])
        (take 0 (settles [ex_setup, ex_main] [\<lparr>success = False\<rparr>]))
        (start (example_host [[ex_setup, ex_main]] ''linux'' []) FromIterate (Daemon ''app'')) =
          Some (AwaitStatus FromIterate [ex_setup, ex_main] 0, dk) \<and>
      trace dk = trace (Daemon ''app'') @ t \<and> spawned t = [setup_6] \<and> processes dk = [] \<and>
      monitors dk = []) \<and>
   (\<exists>dN t. run (example_host [[ex_setup, ex_main]] ''linux'' [])
        (settles [ex_setup, ex_main] [\<lparr>success = False\<rparr>])
        (start (example_host [[ex_setup, ex_main]] ''linux'' []) FromIterate (Daemon ''app'')) =
          Some (after_start (example_host [[ex_setup, ex_main]] ''linux'' []) FromIterate
            \<lparr>watch = Some True\<rparr> dN) \<and>
      trace dN = trace (Daemon ''app'') @ t \<and> spawned t = [setup_6, main_7] \<and>
      processes dN = [(7, main_7)] \<and> monitors dN = [(main_7, \<lparr>watch = Some True\<rparr>)])"
proof -
  let ?h = "example_host [[ex_setup, ex_main]] ''linux'' []"
  have a: "\<not> exited (Daemon ''app'')" by (simp add: Daemon_def)
  have b: "[ex_setup, ex_main] = build ?h (builds (Daemon ''app'')) (script (Daemon ''app''))"
    by (simp add: example_host_def Daemon_def)
  have c: "[ex_setup, ex_main] \<noteq> []" by simp
  have l: "length [\<lparr>success = False\<rparr>] = length [ex_setup, ex_main] - 1" by simp
  note T = chain_runs_in_order[OF a b c l, of FromIterate]
  from T have "\<forall>k<length [ex_setup, ex_main] - 1.
           \<exists>dk t. run ?h (take k (settles [ex_setup, ex_main] [\<lparr>success = False\<rparr>])) (start ?h FromIterate (Daemon ''app'')) =
               Some (AwaitStatus FromIterate [ex_setup, ex_main] k, dk) \<and>
             trace dk = trace (Daemon ''app'') @ t \<and> spawned t = map exe (take (Suc k) [ex_setup, ex_main]) \<and>
             processes dk = processes (Daemon ''app'') \<and> monitors dk = monitors (Daemon ''app'')"
    by (rule conjunct1)
  then have p1: "\<exists>dk t. run ?h (take 0 (settles [ex_setup, ex_main] [\<lparr>success = False\<rparr>])) (start ?h FromIterate (Daemon ''app'')) =
               Some (AwaitStatus FromIterate [ex_setup, ex_main] 0, dk) \<and>
             trace dk = trace (Daemon ''app'') @ t \<and> spawned t = map exe (take (Suc 0) [ex_setup, ex_main]) \<and>
             processes dk = processes (Daemon ''app'') \<and> monitors dk = monitors (Daemon ''app'')"
    by simp
  from T have p2: "\<exists>dN t. run ?h (settles [ex_setup, ex_main] [\<lparr>success = False\<rparr>]) (start ?h FromIterate (Daemon ''app'')) =
               Some (after_start ?h FromIterate (options (last [ex_setup, ex_main])) dN) \<and>
             trace dN = trace (Daemon ''app'') @ t \<and> spawned t = map exe [ex_setup, ex_main] \<and>
             processes dN =
               AList.update (pid (exe (last [ex_setup, ex_main]))) (exe (last [ex_setup, ex_main])) (processes (Daemon ''app'')) \<and>
             monitors dN = monitors (Daemon ''app'') @ [(exe (last [ex_setup, ex_main]), options (last [ex_setup, ex_main]))]"
    by blast
  have e: "exe ex_setup = setup_6" "exe ex_main = main_7" "options ex_main = \<lparr>watch = Some True\<rparr>"
    "pid main_7 = 7" "processes (Daemon ''app'') = []" "monitors (Daemon ''app'') = []"
    by (simp_all add: ex_defs Daemon_def)
  from p1 have q1: "\<exists>dk t. run ?h (take 0 (settles [ex_setup, ex_main] [\<lparr>success = False\<rparr>]))
        (start ?h FromIterate (Daemon ''app'')) =
          Some (AwaitStatus FromIterate [ex_setup, ex_main] 0, dk) \<and>
      trace dk = trace (Daemon ''app'') @ t \<and> spawned t = [setup_6] \<and> processes dk = [] \<and>
      monitors dk = []"
    by (simp add: e)
  from p2 have q2: "\<exists>dN t. run ?h (settles [ex_setup, ex_main] [\<lparr>success = False\<rparr>])
        (start ?h FromIterate (Daemon ''app'')) =
          Some (after_start ?h FromIterate \<lparr>watch = Some True\<rparr> dN) \<and>
      trace dN = trace (Daemon ''app'') @ t \<and> spawned t = [setup_6, main_7] \<and>
      processes dN = [(7, main_7)] \<and> monitors dN = [(main_7, \<lparr>watch = Some True\<rparr>)]"
    by (simp add: e)
  from a b c l q1 q2 show ?thesis by (intro conjI)
qed

text \<open>
  C4. When the first chain is empty or its last command's options do not ask to watch:
  in every state that an iteration of a new daemon can reach, under any sequence of
  events, the events yielded are a prefix of \<^verbatim>\<open>start\<close>, \<^verbatim>\<open>exit\<close>, the watcher has never
  been asked for a batch and the generator is not waiting for one; and once the
  statuses of the sequential commands have been delivered, the consumer receives
  exactly \<^verbatim>\<open>start\<close>, \<^verbatim>\<open>exit\<close> and then \<^verbatim>\<open>done\<close>, while the monitor of the main process
  is still pending: no status of the main process is needed for it.
\<close>

theorem no_watch_start_then_exit:
  assumes "build h 0 s = [] \<or> \<not> truthy (watch (options (last (build h 0 s))))"
    and "length sts = length (build h 0 s) - 1"
  shows "(\<forall>evs g d. run h evs (iterate (Daemon s), Daemon s) = Some (g, d) \<longrightarrow>
            prefix (yields (trace d)) [DStart, DExit] \<and> WatcherNext \<notin> set (trace d) \<and>
            g \<noteq> AwaitWatcher) \<and>
         (\<exists>d. run h (Next # Next # settles (build h 0 s) sts @ [Next])
               (iterate (Daemon s), Daemon s) = Some (Completed, d) \<and>
            yields (trace d) = [DStart, DExit] \<and>
            (build h 0 s = [] \<or>
             monitors d = [(exe (last (build h 0 s)), options (last (build h 0 s)))]))"
proof (rule conjI)
  show "\<forall>evs g d. run h evs (iterate (Daemon s), Daemon s) = Some (g, d) \<longrightarrow>
            prefix (yields (trace d)) [DStart, DExit] \<and> WatcherNext \<notin> set (trace d) \<and>
            g \<noteq> AwaitWatcher"
  proof (intro allI impI)
    fix evs g d
    assume "run h evs (iterate (Daemon s), Daemon s) = Some (g, d)"
    from exit_only_run[OF assms(1) exit_only_init this]
    have "exit_only h s (g, d)" .
    then show "prefix (yields (trace d)) [DStart, DExit] \<and> WatcherNext \<notin> set (trace d) \<and>
            g \<noteq> AwaitWatcher"
      by (rule exit_only_observed)
  qed
next
  show "\<exists>d. run h (Next # Next # settles (build h 0 s) sts @ [Next])
               (iterate (Daemon s), Daemon s) = Some (Completed, d) \<and>
            yields (trace d) = [DStart, DExit] \<and>
            (build h 0 s = [] \<or>
             monitors d = [(exe (last (build h 0 s)), options (last (build h 0 s)))])"
    by (rule no_watch_completes[OF assms])
qed

text \<open>
  The chain of a setup command that fails and a main command with \<^verbatim>\<open>watch: false\<close>.
\<close>

theorem no_watch_start_then_exit_witness:
  "\<not> truthy (watch (options (last (build (example_host [[ex_setup, ex_once]] ''linux'' []) 0 ''job'')))) \<and>
   length [\<lparr>success = False\<rparr>] =
     length (build (example_host [[ex_setup, ex_once]] ''linux'' []) 0 ''job'') - 1 \<and>
   (\<exists>d. run (example_host [[ex_setup, ex_once]] ''linux'' [])
        [Next, Next, Settle setup_6 (Resolved \<lparr>success = False\<rparr>), Next]
        (iterate (Daemon ''job''), Daemon ''job'') = Some (Completed, d) \<and>
      yields (trace d) = [DStart, DExit] \<and>
      monitors d = [(main_8, \<lparr>watch = Some False\<rparr>)])"
proof -
  let ?h = "example_host [[ex_setup, ex_once]] ''linux'' []"
  have b: "build ?h 0 ''job'' = [ex_setup, ex_once]" by (simp add: example_host_def)
  have a: "\<not> truthy (watch (options (last (build ?h 0 ''job''))))"
    unfolding b by (simp add: ex_defs truthy_def)
  then have a': "build ?h 0 ''job'' = [] \<or> \<not> truthy (watch (options (last (build ?h 0 ''job''))))"
    by simp
  have l: "length [\<lparr>success = False\<rparr>] = length (build ?h 0 ''job'') - 1" by (simp add: b)
  have e: "settles [ex_setup, ex_once] [\<lparr>success = False\<rparr>] = [Settle setup_6 (Resolved \<lparr>success = False\<rparr>)]"
    "exe ex_once = main_8" "options ex_once = \<lparr>watch = Some False\<rparr>"
    by (simp_all add: settles_def ex_defs)
  from no_watch_start_then_exit[OF a' l]
  have "\<exists>d. run ?h (Next # Next # settles (build ?h 0 ''job'') [\<lparr>success = False\<rparr>] @ [Next])
               (iterate (Daemon ''job''), Daemon ''job'') = Some (Completed, d) \<and>
            yields (trace d) = [DStart, DExit] \<and>
            (build ?h 0 ''job'' = [] \<or>
             monitors d = [(exe (last (build ?h 0 ''job'')), options (last (build ?h 0 ''job'')))])"
    by (rule conjunct2)
  then have "\<exists>d. run ?h [Next, Next, Settle setup_6 (Resolved \<lparr>success = False\<rparr>), Next]
        (iterate (Daemon ''job''), Daemon ''job'') = Some (Completed, d) \<and>
      yields (trace d) = [DStart, DExit] \<and>
      monitors d = [(main_8, \<lparr>watch = Some False\<rparr>)]"
    unfolding b e by (simp add: e)
  with a l show ?thesis by (intro conjI)
qed

text \<open>
  C5. A batch that the watcher delivers to the waiting generator: if no record of it
  has "modify" in its type, the only effect is the request for the next batch, and
  the generator keeps waiting, so nothing is yielded and \<^verbatim>\<open>reload\<close> is not called; if a
  record has, the reload event with this very batch is yielded, once, after the debug
  line, and nothing else happens in that transition. \<^verbatim>\<open>reload\<close> runs when the consumer
  asks for the next event, so its effects come after the event in the trace, and it
  yields no event of its own. What \<^verbatim>\<open>reload\<close> then does is kill-all and re-execution:
  after its log lines, which spawn and yield nothing, \<^verbatim>\<open>killAll\<close> runs on the registry
  as the event left it, issuing the requests for the handles under a prefix of its
  keys (all of them unless a request threw) and leaving it empty; if \<^verbatim>\<open>killAll\<close> threw,
  the generator ends with the error, and otherwise the chain is built anew and
  \<^verbatim>\<open>start\<close> runs it from its first command.
\<close>

theorem reload_event_per_modify_batch:
  "step h (Feed (Some b)) (AwaitWatcher, d) =
     (if exited d then None
      else if (\<exists>e\<in>set b. ''modify'' \<in> set (type e)) then
        Some (YieldedReload,
          d\<lparr>trace := trace d @ [Log Debug R_reload_detected, Yield (DReload b)]\<rparr>)
      else Some (AwaitWatcher, d\<lparr>trace := trace d @ [WatcherNext]\<rparr>)) \<and>
   step h Next (YieldedReload, d') = (if exited d' then None else Some (reload h d')) \<and>
   (\<exists>t. trace (snd (reload h d')) = trace d' @ t \<and> yields t = []) \<and>
   (\<exists>d4 t ks t5. trace d4 = trace d' @ t \<and> quiet t \<and> spawned t = [] \<and>
      processes d4 = processes d' \<and>
      prefix ks (Object_keys (processes d')) \<and>
      trace (snd (killAll h d4)) =
        trace d4 @ Log Debug (K_killing (length (Object_keys (processes d')))) # t5 \<and>
      filter is_request t5 = map (\<lambda>k. request h (the (map_of (processes d') k))) ks \<and>
      (fst (killAll h d4) = Thrown \<or> ks = Object_keys (processes d')) \<and>
      processes (snd (killAll h d4)) = [] \<and>
      reload h d' =
        (if fst (killAll h d4) = Thrown
         then (Completed, emit NextRejected (snd (killAll h d4)))
         else start_loop h FromReload (build h (builds d') (script d')) 0
                ((snd (killAll h d4))\<lparr>builds := Suc (builds d')\<rparr>)))"
  by (rule conjI[OF step_feed conjI[OF step_next_reload
        conjI[OF reload_trace reload_kills_then_starts]]])



text \<open>
  C7, as stated, fails. On a host whose chain is one watching command, the daemon
  starts it and registers its handle under pid 7. When the promise of its status is
  then rejected, \<^verbatim>\<open>monitor\<close> logs the error and goes on to the lookup: pid 7 is still a
  key, so the entry is deleted and the line logged is "exited on its own", not
  "was killed".
\<close>

theorem monitor_status_failure_counterexample:
  "processes (snd (the (run (example_host [[ex_main]] ''linux'' []) [Next, Next]
      (iterate (Daemon ''app''), Daemon ''app'')))) = [(7, main_7)] \<and>
   processes (snd (the (run (example_host [[ex_main]] ''linux'' []) [Next, Next, Settle main_7 Rejected]
      (iterate (Daemon ''app''), Daemon ''app'')))) = [] \<and>
   drop 11 (trace (snd (the (run (example_host [[ex_main]] ''linux'' [])
      [Next, Next, Settle main_7 Rejected] (iterate (Daemon ''app''), Daemon ''app''))))) =
     [Log Debug (M_error_status 7), Log Debug (M_exited_on_its_own 7)]"
  by code_simp

text \<open>
  C7, amended. When the status cannot be retrieved, \<^verbatim>\<open>monitor\<close> logs the failure at debug
  level and then does the same lookup as with a status: a pid that is still a key is
  removed under the line "exited on its own", with none of the four exit messages;
  a pid that is no key gets the line "was killed" and the registry is untouched. The
  error goes nowhere else: the transition of a pending monitor leaves the generator
  where it was and adds nothing but these two log lines to the trace.
\<close>

theorem monitor_resume_status_failure:
  "monitor_resume p opts Rejected d =
     (if pid p \<in> fst ` set (processes d) then
        d\<lparr>processes := AList.delete (pid p) (processes d),
          trace := trace d @ [Log Debug (M_error_status (pid p)),
            Log Debug (M_exited_on_its_own (pid p))]\<rparr>
      else d\<lparr>trace := trace d @ [Log Debug (M_error_status (pid p)),
            Log Debug (M_was_killed (pid p))]\<rparr>) \<and>
   (\<not> exited d \<and> \<not> awaiting g p \<and> find (\<lambda>m. fst m = p) (monitors d) = Some m \<longrightarrow>
      step h (Settle p Rejected) (g, d) =
        Some (g, monitor_resume p (snd m) Rejected (d\<lparr>monitors := remove1 m (monitors d)\<rparr>)))"
proof (intro conjI impI)
  show "monitor_resume p opts Rejected d =
     (if pid p \<in> fst ` set (processes d) then
        d\<lparr>processes := AList.delete (pid p) (processes d),
          trace := trace d @ [Log Debug (M_error_status (pid p)),
            Log Debug (M_exited_on_its_own (pid p))]\<rparr>
      else d\<lparr>trace := trace d @ [Log Debug (M_error_status (pid p)),
            Log Debug (M_was_killed (pid p))]\<rparr>)"
    by (rule monitor_resume_Rejected)
next
  assume "\<not> exited d \<and> \<not> awaiting g p \<and> find (\<lambda>m. fst m = p) (monitors d) = Some m"
  then show "step h (Settle p Rejected) (g, d) =
        Some (g, monitor_resume p (snd m) Rejected (d\<lparr>monitors := remove1 m (monitors d)\<rparr>))"
    using step_monitor by blast
qed

text \<open>
  The daemon that tracks pid 7, waiting for the watcher, when the status of pid 7 is
  rejected.
\<close>

theorem monitor_resume_status_failure_witness:
  "\<not> exited tracked_7 \<and> \<not> awaiting AwaitWatcher main_7 \<and>
   find (\<lambda>m. fst m = main_7) (monitors tracked_7) = Some (main_7, \<lparr>watch = Some True\<rparr>) \<and>
   step (example_host [[ex_main]] ''linux'' []) (Settle main_7 Rejected) (AwaitWatcher, tracked_7) =
     Some (AwaitWatcher, (Daemon ''app'')\<lparr>trace := [Log Debug (M_error_status 7),
            Log Debug (M_exited_on_its_own 7)]\<rparr>)"
proof -
  have a: "\<not> exited tracked_7 \<and> \<not> awaiting AwaitWatcher main_7 \<and>
      find (\<lambda>m. fst m = main_7) (monitors tracked_7) = Some (main_7, \<lparr>watch = Some True\<rparr>)"
    by (simp add: ex_defs Daemon_def)
  have b: "monitor_resume main_7 \<lparr>watch = Some True\<rparr> Rejected
        (tracked_7\<lparr>monitors := remove1 (main_7, \<lparr>watch = Some True\<rparr>) (monitors tracked_7)\<rparr>) =
      (Daemon ''app'')\<lparr>trace := [Log Debug (M_error_status 7), Log Debug (M_exited_on_its_own 7)]\<rparr>"
    by (simp add: monitor_resume_Rejected ex_defs Daemon_def AList.delete_eq)
  show ?thesis
    using a b monitor_resume_status_failure[of main_7 "\<lparr>watch = Some True\<rparr>" tracked_7 AwaitWatcher
        "(main_7, \<lparr>watch = Some True\<rparr>)" "example_host [[ex_main]] ''linux'' []"]
    by simp
qed

text \<open>
  C8. When \<^verbatim>\<open>monitor\<close> has obtained a status: if the pid is still a key of the registry,
  the entry is removed and, after the debug lines "got status" and "exited on its own",
  exactly one message is logged, the one that the success flag and the truthiness of
  \<^verbatim>\<open>options.watch\<close> select among the four (which are pairwise different); if the pid
  is not a key, the only line after "got status" is "was killed" and nothing but the
  trace changes. In both cases the pid is no key afterwards.
\<close>

theorem monitor_resume_with_status:
  "monitor_resume p opts (Resolved st) d =
     (if pid p \<in> fst ` set (processes d) then
        d\<lparr>processes := AList.delete (pid p) (processes d),
          trace := trace d @ [Log Debug (M_got_status (pid p)),
            Log Debug (M_exited_on_its_own (pid p)),
            exit_message (success st) (truthy (watch opts))]\<rparr>
      else d\<lparr>trace := trace d @ [Log Debug (M_got_status (pid p)),
            Log Debug (M_was_killed (pid p))]\<rparr>) \<and>
   map_of (processes (monitor_resume p opts (Resolved st) d)) (pid p) = None \<and>
   (exit_message a b = exit_message a' b') = (a = a' \<and> b = b')"
  by (intro conjI)
     (rule monitor_resume_Resolved, rule monitor_resume_unregisters, rule exit_message_inj)

text \<open>
  C9, as stated, fails: nothing in the daemon records that it has been iterated. After
  a first iteration has completed with \<^verbatim>\<open>start\<close> and \<^verbatim>\<open>exit\<close>, a second call of
  \<^verbatim>\<open>[Symbol.asyncIterator]()\<close> on the same daemon gives a generator whose first event is
  \<^verbatim>\<open>start\<close> again, and whose \<^verbatim>\<open>start()\<close> builds and runs a chain on the same registry,
  which then holds the main processes of both iterations.
\<close>

theorem iterate_twice_counterexample:
  "fst (the (run (example_host [[ex_once], [ex_main]] ''linux'' []) [Next, Next, Next]
     (Symbol_asyncIterator (Daemon ''app''), Daemon ''app''))) = Completed \<and>
   yields (trace ex_rerun) = [DStart, DExit] \<and>
   yields (trace (snd (the (run (example_host [[ex_once], [ex_main]] ''linux'' []) [Next]
     (Symbol_asyncIterator ex_rerun, ex_rerun))))) = [DStart, DExit, DStart] \<and>
   map fst (processes (snd (the (run (example_host [[ex_once], [ex_main]] ''linux'' []) [Next, Next]
     (Symbol_asyncIterator ex_rerun, ex_rerun))))) = [8, 7]"
  by code_simp

text \<open>
  C9, amended. Every call of \<^verbatim>\<open>[Symbol.asyncIterator]()\<close>, in any state of the daemon,
  returns a generator that has not run, and whose first \<^verbatim>\<open>next()\<close> yields \<^verbatim>\<open>start\<close>; it is
  each such generator that is single-use: once completed it answers every \<^verbatim>\<open>next()\<close>
  with \<^verbatim>\<open>done\<close> and nothing else. The second \<^verbatim>\<open>next()\<close> of the new generator builds a
  chain and runs \<^verbatim>\<open>start\<close> on the daemon as it is, registry included: once the statuses
  of the sequential commands are in, every command of the chain has been spawned
  again, and the handle of the last one has been put into the registry the daemon
  already had, next to whatever it held, with its monitor added to those pending.
\<close>

theorem fresh_generator_per_call:
  "Symbol_asyncIterator d = SuspendedStart \<and>
   step h Next (Symbol_asyncIterator d, d) =
     (if exited d then None else Some (YieldedStart, d\<lparr>trace := trace d @ [Yield DStart]\<rparr>)) \<and>
   step h Next (Completed, d) =
     (if exited d then None else Some (Completed, d\<lparr>trace := trace d @ [NextDone]\<rparr>)) \<and>
   run h [Next, Next] (Symbol_asyncIterator d, d) =
     (if exited d then None
      else Some (start_loop h FromIterate (build h (builds d) (script d)) 0
                   (d\<lparr>trace := trace d @ [Yield DStart], builds := Suc (builds d)\<rparr>))) \<and>
   (\<not> exited d \<and> commands = build h (builds d) (script d) \<and> commands \<noteq> [] \<and>
    length sts = length commands - 1 \<longrightarrow>
      (\<exists>dN. run h (Next # Next # settles commands sts) (Symbol_asyncIterator d, d) =
          Some (after_start h FromIterate (options (last commands)) dN) \<and>
        processes dN =
          AList.update (pid (exe (last commands))) (exe (last commands)) (processes d) \<and>
        monitors dN = monitors d @ [(exe (last commands), options (last commands))] \<and>
        spawned (drop (length (trace d)) (trace dN)) = map exe commands \<and>
        yields (drop (length (trace d)) (trace dN)) = [DStart]))"
proof -
  have a: "Symbol_asyncIterator d = SuspendedStart"
    by (simp add: Symbol_asyncIterator_def iterate_def)
  have b: "step h Next (Symbol_asyncIterator d, d) =
     (if exited d then None else Some (YieldedStart, d\<lparr>trace := trace d @ [Yield DStart]\<rparr>))"
    by (simp add: Symbol_asyncIterator_def iterate_def on_next_def emit_def)
  have c: "step h Next (Completed, d) =
     (if exited d then None else Some (Completed, d\<lparr>trace := trace d @ [NextDone]\<rparr>))"
    by (simp add: on_next_def emit_def)
  have e: "\<not> exited d \<and> commands = build h (builds d) (script d) \<and> commands \<noteq> [] \<and>
    length sts = length commands - 1 \<longrightarrow>
      (\<exists>dN. run h (Next # Next # settles commands sts) (Symbol_asyncIterator d, d) =
          Some (after_start h FromIterate (options (last commands)) dN) \<and>
        processes dN =
          AList.update (pid (exe (last commands))) (exe (last commands)) (processes d) \<and>
        monitors dN = monitors d @ [(exe (last commands), options (last commands))] \<and>
        spawned (drop (length (trace d)) (trace dN)) = map exe commands \<and>
        yields (drop (length (trace d)) (trace dN)) = [DStart])"
    using iterate_again_chain[of d commands h sts] by blast
  show ?thesis by (rule conjI[OF a conjI[OF b conjI[OF c conjI[OF iterate_again e]]]])
qed

text \<open>
  The daemon left by a completed first iteration, which still tracks pid 8: a second
  iteration registers pid 7 beside it.
\<close>

theorem fresh_generator_per_call_witness:
  "\<not> exited ex_rerun \<and>
   [ex_main] = build (example_host [[ex_once], [ex_main]] ''linux'' [])
      (builds ex_rerun) (script ex_rerun) \<and>
   processes ex_rerun = [(8, main_8)] \<and>
   (\<exists>dN. run (example_host [[ex_once], [ex_main]] ''linux'' []) (Next # Next # settles [ex_main] [])
          (Symbol_asyncIterator ex_rerun, ex_rerun) =
        Some (after_start (example_host [[ex_once], [ex_main]] ''linux'' []) FromIterate
          \<lparr>watch = Some True\<rparr> dN) \<and>
      processes dN = [(8, main_8), (7, main_7)] \<and>
      spawned (drop (length (trace ex_rerun)) (trace dN)) = [main_7] \<and>
      yields (drop (length (trace ex_rerun)) (trace dN)) = [DStart])"
proof -
  let ?h = "example_host [[ex_once], [ex_main]] ''linux'' []"
  have a: "\<not> exited ex_rerun" by code_simp
  have b: "[ex_main] = build ?h (builds ex_rerun) (script ex_rerun)" by code_simp
  have p: "processes ex_rerun = [(8, main_8)]" by code_simp
  have l: "length ([]::ProcessStatus list) = length [ex_main] - 1" by simp
  have e: "exe ex_main = main_7" "options ex_main = \<lparr>watch = Some True\<rparr>" "pid main_7 = 7"
    by (simp_all add: ex_defs)
  from fresh_generator_per_call[of ex_rerun ?h "[ex_main]" "[]"] a b l
  have "\<exists>dN. run ?h (Next # Next # settles [ex_main] []) (Symbol_asyncIterator ex_rerun, ex_rerun) =
          Some (after_start ?h FromIterate (options (last [ex_main])) dN) \<and>
        processes dN =
          AList.update (pid (exe (last [ex_main]))) (exe (last [ex_main])) (processes ex_rerun) \<and>
        monitors dN = monitors ex_rerun @ [(exe (last [ex_main]), options (last [ex_main]))] \<and>
        spawned (drop (length (trace ex_rerun)) (trace dN)) = map exe [ex_main] \<and>
        yields (drop (length (trace ex_rerun)) (trace dN)) = [DStart]"
    by blast
  then obtain dN where dN:
    "run ?h (Next # Next # settles [ex_main] []) (Symbol_asyncIterator ex_rerun, ex_rerun) =
          Some (after_start ?h FromIterate (options (last [ex_main])) dN)"
    "processes dN =
          AList.update (pid (exe (last [ex_main]))) (exe (last [ex_main])) (processes ex_rerun)"
    "spawned (drop (length (trace ex_rerun)) (trace dN)) = map exe [ex_main]"
    "yields (drop (length (trace ex_rerun)) (trace dN)) = [DStart]"
    by blast
  have q: "processes dN = [(8, main_8), (7, main_7)]"
    using dN(2) unfolding p by (simp add: e main_8_def)
  have "\<exists>dN. run ?h (Next # Next # settles [ex_main] [])
          (Symbol_asyncIterator ex_rerun, ex_rerun) =
        Some (after_start ?h FromIterate \<lparr>watch = Some True\<rparr> dN) \<and>
      processes dN = [(8, main_8), (7, main_7)] \<and>
      spawned (drop (length (trace ex_rerun)) (trace dN)) = [main_7] \<and>
      yields (drop (length (trace ex_rerun)) (trace dN)) = [DStart]"
    using dN(1,3,4) q by (intro exI[of _ dN]) (simp add: e)
  with a b p show ?thesis by (intro conjI)
qed

text \<open>
  C10. A reload whose termination requests do not throw, followed by the statuses of
  the sequential commands of the rebuilt chain: whatever options the commands of the
  rebuilt chain carry (their \<^verbatim>\<open>watch\<close> is never read), the generator ends up asking the
  watcher for the next batch, and a further batch with a modified file is yielded as
  a reload event again. The test of \<^verbatim>\<open>options.watch\<close> is made once, on what the first
  \<^verbatim>\<open>start()\<close> of \<^verbatim>\<open>iterate\<close> returned; \<^verbatim>\<open>reload\<close> awaits \<^verbatim>\<open>start()\<close> and drops its result.
\<close>

theorem reload_drops_options:
  assumes "\<not> exited d"
    and "\<forall>k\<in>set (Object_keys (processes d)). \<not> request_throws h (the (map_of (processes d) k))"
    and "commands = build h (builds d) (script d)"
    and "length sts = length commands - 1"
    and "\<exists>e\<in>set b. ''modify'' \<in> set (type e)"
  shows "\<exists>d'. run h (Next # settles commands sts) (YieldedReload, d) = Some (AwaitWatcher, d') \<and>
     last (trace d') = WatcherNext \<and>
     run h (Next # settles commands sts @ [Feed (Some b)]) (YieldedReload, d) =
       Some (YieldedReload,
         d'\<lparr>trace := trace d' @ [Log Debug R_reload_detected, Yield (DReload b)]\<rparr>)"
proof -
  from reload_normal[OF assms(2)] obtain d5 where d5:
    "reload h d = start h FromReload d5" "exited d5 = exited d"
    "builds d5 = builds d" "script d5 = script d"
    by blast
  have ne5: "\<not> exited d5" using d5(2) assms(1) by simp
  have c5: "commands = build h (builds d5) (script d5)" using assms(3) d5(3,4) by simp
  have "\<exists>dN. run h (settles commands sts) (start h FromReload d5) =
      Some (AwaitWatcher, emit WatcherNext dN) \<and> exited dN = exited d5"
  proof (cases "commands = []")
    case True
    then have "start h FromReload d5 = (AwaitWatcher, emit WatcherNext (d5\<lparr>builds := Suc (builds d5)\<rparr>))"
      using c5 by (simp add: start_def Let_def start_loop_empty)
    then show ?thesis using True
      by (intro exI[of _ "d5\<lparr>builds := Suc (builds d5)\<rparr>"]) (simp add: settles_def)
  next
    case False
    from start_chain_full[OF ne5 c5 False assms(4), of FromReload]
    show ?thesis by auto
  qed
  then obtain dN where dN: "run h (settles commands sts) (start h FromReload d5) =
      Some (AwaitWatcher, emit WatcherNext dN)" "exited dN = exited d5" by blast
  let ?d' = "emit WatcherNext dN"
  have r1: "run h (Next # settles commands sts) (YieldedReload, d) = Some (AwaitWatcher, ?d')"
    using dN(1) d5(1) assms(1) by (simp add: on_next_def)
  have ne: "\<not> exited ?d'" using dN(2) ne5 by (simp add: emit_def)
  have r2: "run h ((Next # settles commands sts) @ [Feed (Some b)]) (YieldedReload, d) =
      Some (YieldedReload, ?d'\<lparr>trace := trace ?d' @ [Log Debug R_reload_detected, Yield (DReload b)]\<rparr>)"
    unfolding run_snoc r1 using ne assms(5) by (simp add: step_feed del: step.simps)
  show ?thesis
    using r1 r2 by (intro exI[of _ ?d']) (simp add: emit_def)
qed

text \<open>
  A reload where the rebuilt chain is a setup command and a main command whose
  options say \<^verbatim>\<open>watch: false\<close>: the generator still ends up waiting for the watcher.
\<close>

theorem reload_drops_options_witness:
  "\<not> exited reloading_7 \<and>
   Object_keys (processes reloading_7) = [7] \<and>
   \<not> request_throws (example_host [[ex_main], [ex_setup, ex_once]] ''linux'' []) main_7 \<and>
   [ex_setup, ex_once] = build (example_host [[ex_main], [ex_setup, ex_once]] ''linux'' [])
      (builds reloading_7) (script reloading_7) \<and>
   watch (options (last [ex_setup, ex_once])) = Some False \<and>
   (\<exists>d'. run (example_host [[ex_main], [ex_setup, ex_once]] ''linux'' [])
        (Next # settles [ex_setup, ex_once] [\<lparr>success = True\<rparr>]) (YieldedReload, reloading_7) =
          Some (AwaitWatcher, d') \<and>
      last (trace d') = WatcherNext \<and>
      run (example_host [[ex_main], [ex_setup, ex_once]] ''linux'' [])
        (Next # settles [ex_setup, ex_once] [\<lparr>success = True\<rparr>] @ [Feed (Some ex_batch)])
        (YieldedReload, reloading_7) =
          Some (YieldedReload,
            d'\<lparr>trace := trace d' @ [Log Debug R_reload_detected, Yield (DReload ex_batch)]\<rparr>))"
proof -
  let ?h = "example_host [[ex_main], [ex_setup, ex_once]] ''linux'' []"
  have a: "\<not> exited reloading_7" by (simp add: reloading_7_def ex_defs Daemon_def)
  have k: "Object_keys (processes reloading_7) = [7]"
    by (simp add: reloading_7_def ex_defs Daemon_def Object_keys_def)
  have t: "\<not> request_throws ?h main_7" by (simp add: request_throws_def example_host_def)
  have m: "map_of (processes reloading_7) 7 = Some main_7"
    by (simp add: reloading_7_def ex_defs Daemon_def)
  have b: "\<forall>k\<in>set (Object_keys (processes reloading_7)).
      \<not> request_throws ?h (the (map_of (processes reloading_7) k))"
    using t m by (simp add: k)
  have c: "[ex_setup, ex_once] = build ?h (builds reloading_7) (script reloading_7)"
    by (simp add: example_host_def reloading_7_def ex_defs Daemon_def)
  have l: "length [\<lparr>success = True\<rparr>] = length [ex_setup, ex_once] - 1" by simp
  have e: "\<exists>e\<in>set ex_batch. ''modify'' \<in> set (type e)" by (simp add: ex_defs)
  have w: "watch (options (last [ex_setup, ex_once])) = Some False" by (simp add: ex_defs)
  from a k t c w reload_drops_options[OF a b c l e] show ?thesis by (intro conjI)
qed

end
